theory Spec2Isabelle
  imports Complex_Main
begin

section \<open>Python strings\<close>

text \<open>
  A Python \<open>str\<close> is modelled as a \<^typ>\<open>string\<close> whose characters are the code points
  below 256; on that range the functions below agree with \<open>str.lower\<close>, \<open>str.strip\<close>,
  \<open>str.split\<close> with a one-character separator, \<open>str.replace\<close> of one character by another,
  \<open>str.startswith\<close>, \<open>str.endswith\<close> and \<open>urllib.parse.quote_plus\<close>. A Python \<open>float\<close> is
  modelled as a \<^typ>\<open>real\<close>: the only operation the program applies to one is \<open><\<close>.
\<close>

definition lower_char :: "char \<Rightarrow> char" where
  "lower_char c =
     (let n = (of_char c :: nat)
      in if (65 \<le> n \<and> n \<le> 90) \<or> (192 \<le> n \<and> n \<le> 222 \<and> n \<noteq> 215)
         then char_of (n + 32) else c)"

definition lower :: "string \<Rightarrow> string" where
  "lower s = map lower_char s"

definition is_space :: "char \<Rightarrow> bool" where
  "is_space c =
     (let n = (of_char c :: nat)
      in (9 \<le> n \<and> n \<le> 13) \<or> (28 \<le> n \<and> n \<le> 32) \<or> n = 133 \<or> n = 160)"

definition strip :: "string \<Rightarrow> string" where
  "strip s = rev (dropWhile is_space (rev (dropWhile is_space s)))"

fun split_on :: "char \<Rightarrow> string \<Rightarrow> string list" where
  "split_on sep [] = [[]]"
| "split_on sep (c # cs) =
     (if c = sep then [] # split_on sep cs
      else (case split_on sep cs of
              [] \<Rightarrow> [[c]]
            | seg # segs \<Rightarrow> (c # seg) # segs))"

definition replace_char :: "char \<Rightarrow> char \<Rightarrow> string \<Rightarrow> string" where
  "replace_char old new s = map (\<lambda>c. if c = old then new else c) s"

definition startswith :: "string \<Rightarrow> string \<Rightarrow> bool" where
  "startswith s pre = (take (length pre) s = pre)"

definition endswith :: "string \<Rightarrow> string \<Rightarrow> bool" where
  "endswith s suf = (length suf \<le> length s \<and> drop (length s - length suf) s = suf)"

text \<open>\<open>urllib.parse.quote_plus(s)\<close> with its default \<open>safe=''\<close>: letters, digits and \<open>_.-~\<close>
  stay, a space becomes \<open>+\<close>, every other character becomes \<open>%XX\<close> for each byte of its
  UTF-8 encoding (one byte below 128, two bytes from 128 to 255).\<close>

definition unreserved :: "char \<Rightarrow> bool" where
  "unreserved c =
     (let n = (of_char c :: nat)
      in (65 \<le> n \<and> n \<le> 90) \<or> (97 \<le> n \<and> n \<le> 122) \<or> (48 \<le> n \<and> n \<le> 57)
         \<or> c = CHR ''_'' \<or> c = CHR ''.'' \<or> c = CHR ''-'' \<or> c = CHR ''~'')"

definition hex_digit :: "nat \<Rightarrow> char" where
  "hex_digit n = ''0123456789ABCDEF'' ! (n mod 16)"

definition pct_byte :: "nat \<Rightarrow> string" where
  "pct_byte b = [CHR ''%'', hex_digit (b div 16), hex_digit (b mod 16)]"

definition quote_char :: "char \<Rightarrow> string" where
  "quote_char c =
     (let n = (of_char c :: nat)
      in if c = CHR '' '' then ''+''
         else if unreserved c then [c]
         else if n < 128 then pct_byte n
         else pct_byte (192 + n div 64) @ pct_byte (128 + n mod 64))"

definition quote_plus :: "string \<Rightarrow> string" where
  "quote_plus s = concat (map quote_char s)"

section \<open>Helpers of \<open>main.py\<close>\<close>

text \<open>\<open>os.sep\<close> on a POSIX system.\<close>

definition os_sep :: char where
  "os_sep = CHR ''/''"

text \<open>\<open>parse_path_parts\<close>: \<open>parts[-k]\<close> is read only when \<open>len(parts) \<ge> k\<close>; the result is
  the triple \<open>(animal_folder, block, camera_id)\<close>.\<close>

definition parse_path_parts :: "string \<Rightarrow> string option \<times> string option \<times> string option" where
  "parse_path_parts img_path =
     (let parts = split_on os_sep img_path;
          n = length parts;
          animal_folder = (if 2 \<le> n then Some (parts ! (n - 2)) else None);
          camera_id = (if 3 \<le> n then Some (parts ! (n - 3)) else None);
          block = (if 4 \<le> n then Some (parts ! (n - 4)) else None)
      in (animal_folder, block, camera_id))"

text \<open>\<open>build_hyperlink_for_animal\<close>: a name that is \<open>None\<close> or empty is falsy.\<close>

definition build_hyperlink_for_animal :: "string option \<Rightarrow> string" where
  \<open>build_hyperlink_for_animal name =
     (let label = (case name of None \<Rightarrow> ''Unidentified''
                   | Some n \<Rightarrow> if n = [] then ''Unidentified'' else n);
          query = quote_plus (if lower label \<noteq> ''unidentified'' then label
                              else ''wildlife+image+unidentified'');
          url = ''https://www.google.com/search?q='' @ query
      in ''=HYPERLINK("'' @ url @ ''", "'' @ label @ ''")'')\<close>

text \<open>
  \<open>extract_metadata\<close> reads the EXIF table through PIL, an external library: the model
  takes the reader's outcome for the path, \<open>None\<close> when opening the image or reading the
  table raises or when the table is absent or empty, otherwise the tags in the table's
  order, each with its name (\<open>TAGS.get(tag, tag)\<close>) and \<open>str(value)\<close>. The loop stops at the
  first tag named \<open>DateTime\<close>.
\<close>

fun find_datetime :: "(string \<times> string) list \<Rightarrow> string option \<times> string option" where
  "find_datetime [] = (None, None)"
| "find_datetime ((tag, v) # rest) =
     (if tag = ''DateTime''
      then (let parts = split_on CHR '' '' v
            in if length parts = 2
               then (Some (replace_char CHR '':'' CHR ''-'' (parts ! 0)), Some (parts ! 1))
               else (None, None))
      else find_datetime rest)"

definition extract_metadata ::
  "(string \<Rightarrow> (string \<times> string) list option) \<Rightarrow> string \<Rightarrow> string option \<times> string option" where
  "extract_metadata exif img_path =
     (case exif img_path of None \<Rightarrow> (None, None) | Some info \<Rightarrow> find_datetime info)"

section \<open>The record builder\<close>

text \<open>A classification result is a dict with the optional keys \<open>label\<close> and \<open>score\<close>.\<close>

record cresult =
  res_label :: "string option"
  res_score :: "real option"

definition fallback_result :: cresult where
  "fallback_result = \<lparr>res_label = Some ''Unidentified'', res_score = Some 0\<rparr>"

record image_record =
  rec_animal_folder :: "string option"
  rec_block :: "string option"
  rec_camera_id :: "string option"
  rec_animal_name :: string
  rec_date :: "string option"
  rec_time :: "string option"
  rec_path :: string

text \<open>\<open>split\<close> never returns an empty list (lemma \<open>split_on_not_Nil\<close>), so its first
  segment exists. Lines 214 to 218 of \<open>_record_from_path_and_result\<close>: the label (\<open>get("label") or
  "Unidentified"\<close>), the score (\<open>get("score", 0.0)\<close>) and the resolved name.\<close>

definition label_of :: "cresult \<Rightarrow> string" where
  "label_of result =
     (case res_label result of None \<Rightarrow> ''Unidentified''
      | Some l \<Rightarrow> if l = [] then ''Unidentified'' else l)"

definition score_of :: "cresult \<Rightarrow> real" where
  "score_of result = (case res_score result of None \<Rightarrow> 0 | Some s \<Rightarrow> s)"

definition first_segment :: "string \<Rightarrow> string" where
  "first_segment label = strip (hd (split_on CHR '','' label))"

definition resolve_animal_name :: "real \<Rightarrow> cresult \<Rightarrow> string" where
  "resolve_animal_name conf_threshold result =
     (let label = label_of result;
          score = score_of result;
          animal_name = first_segment label
      in if score < conf_threshold then ''Unidentified'' else animal_name)"

definition record_from_path_and_result ::
  "(string \<Rightarrow> (string \<times> string) list option) \<Rightarrow> real \<Rightarrow> string \<Rightarrow> cresult \<Rightarrow> image_record" where
  "record_from_path_and_result exif conf_threshold img_path result =
     (let animal_name = resolve_animal_name conf_threshold result;
          (date, time) = extract_metadata exif img_path;
          (animal_folder, block, camera_id) = parse_path_parts img_path
      in \<lparr>rec_animal_folder = animal_folder,
          rec_block = block,
          rec_camera_id = camera_id,
          rec_animal_name = build_hyperlink_for_animal (Some animal_name),
          rec_date = date,
          rec_time = time,
          rec_path = img_path\<rparr>)"

section \<open>The environment of a run\<close>

text \<open>
  What the program reads from outside is a parameter of the model: the directory walk
  (\<open>os.walk\<close>, as the list of its \<open>(root, files)\<close> pairs), the EXIF reader, whether the
  model loads, the classification pipeline called on a list of paths and on one path
  (\<open>Inl\<close> when the call raises), the moments at which the user presses Stop (before which
  poll of the flag), the outcome of each attempt to write the checkpoint, and whether the
  spreadsheet can be written. What the program writes is the \<open>world\<close>: the checkpoint
  file \<open>progress.json\<close>, the exported spreadsheet, the batches submitted to the pipeline,
  and the counters of polls and of save attempts.
\<close>

datatype exn = TypeError | ValueError | IndexError | OSError | FileNotFoundError

datatype pyitem = ItemList "cresult list" | ItemDict cresult | ItemOther

datatype disk_outcome = WriteOk | MkdirFails | OpenFails | DumpFails

record env =
  os_walk :: "string \<Rightarrow> (string \<times> string list) list"
  exif_of :: "string \<Rightarrow> (string \<times> string) list option"
  model_loads :: bool
  pipeline_many :: "string list \<Rightarrow> exn + pyitem list"
  pipeline_one :: "string \<Rightarrow> exn + pyitem"
  stop_pressed :: "nat \<Rightarrow> bool"
  disk :: "nat \<Rightarrow> disk_outcome"
  excel_ok :: bool

text \<open>The checkpoint as \<open>json.load\<close> returns it: a key of \<open>meta\<close> or of the payload may be
  missing, and a value may be one that \<open>int\<close>, \<open>float\<close> or \<open>set\<close> rejects. The list of
  processed paths is kept as the set it is read into; the time stamp \<open>saved_at\<close> is left
  out, nothing reads it.\<close>

datatype 'a jfield = Missing | Bad | Good 'a

record checkpoint =
  cp_root_folder :: "string option option"
  cp_batch_size :: "int jfield"
  cp_conf_threshold :: "real jfield"
  cp_records :: "image_record list option"
  cp_processed_paths :: "string set jfield"

datatype file_state = NoFile | Unparsable | Parsed checkpoint

record export_row =
  col_animal_folder :: "string option"
  col_block :: "string option"
  col_camera_id :: "string option"
  col_animal_name :: string
  col_date :: "string option"
  col_time :: "string option"

record world =
  progress_file :: file_state
  excel_file :: "export_row list option"
  submitted :: "string list list"
  polls :: nat
  saves :: nat

section \<open>The processor\<close>

record processor =
  classifier_loaded :: bool
  stop_flag :: bool
  records :: "image_record list"
  processed_paths :: "string set"
  root_folder :: "string option"
  batch_size :: int
  conf_threshold :: real

definition init_processor :: processor where
  "init_processor =
     \<lparr>classifier_loaded = False, stop_flag = False, records = [], processed_paths = {},
      root_folder = None, batch_size = 16, conf_threshold = 0.85\<rparr>"

definition set_params :: "string \<Rightarrow> int \<Rightarrow> real \<Rightarrow> processor \<Rightarrow> processor" where
  "set_params folder bs conf p = p\<lparr>root_folder := Some folder, batch_size := bs, conf_threshold := conf\<rparr>"

definition reset_state :: "processor \<Rightarrow> processor" where
  "reset_state p = p\<lparr>stop_flag := False, records := [], processed_paths := {}\<rparr>"

definition stop :: "processor \<Rightarrow> processor" where
  "stop p = p\<lparr>stop_flag := True\<rparr>"

definition load_model :: "env \<Rightarrow> processor \<Rightarrow> exn + processor" where
  "load_model e p =
     (if model_loads e then Inr (p\<lparr>classifier_loaded := True\<rparr>) else Inl FileNotFoundError)"

subsection \<open>The scanner\<close>

text \<open>\<open>os.path.join\<close> on a POSIX system.\<close>

definition path_join :: "string \<Rightarrow> string \<Rightarrow> string" where
  "path_join a b =
     (if startswith b ''/'' then b
      else if a = [] \<or> endswith a ''/'' then a @ b
      else a @ ''/'' @ b)"

definition image_suffix :: "string \<Rightarrow> bool" where
  "image_suffix f =
     (endswith (lower f) ''.jpg'' \<or> endswith (lower f) ''.jpeg'' \<or> endswith (lower f) ''.png'')"

fun scan_files :: "string set \<Rightarrow> string \<Rightarrow> string list \<Rightarrow> string list" where
  "scan_files excluded dirpath [] = []"
| "scan_files excluded dirpath (f # files) =
     (if startswith f ''._'' then scan_files excluded dirpath files
      else if image_suffix f
      then (let full = path_join dirpath f
            in if full \<notin> excluded then full # scan_files excluded dirpath files
               else scan_files excluded dirpath files)
      else scan_files excluded dirpath files)"

text \<open>\<open>os.walk(None)\<close> raises \<open>TypeError\<close>; on a folder that does not exist it yields
  nothing.\<close>

definition scan_all_images :: "env \<Rightarrow> processor \<Rightarrow> exn + string list" where
  "scan_all_images e p =
     (case root_folder p of
        None \<Rightarrow> Inl TypeError
      | Some r \<Rightarrow>
          Inr (concat (map (\<lambda>(dirpath, files). scan_files (processed_paths p) dirpath files)
                           (os_walk e r))))"

subsection \<open>The checkpoint store\<close>

definition payload_of :: "processor \<Rightarrow> checkpoint" where
  "payload_of p =
     \<lparr>cp_root_folder = Some (root_folder p),
      cp_batch_size = Good (batch_size p),
      cp_conf_threshold = Good (conf_threshold p),
      cp_records = Some (records p),
      cp_processed_paths = Good (processed_paths p)\<rparr>"

text \<open>\<open>_save_progress\<close>: \<open>safe_makedirs(OUTPUT_DIR)\<close> stands before the \<open>try\<close>, so its
  failure propagates; a failure of \<open>open\<close> leaves the file as it was and a failure of
  \<open>json.dump\<close> leaves a truncated file, both caught and printed.\<close>

definition save_progress :: "env \<Rightarrow> processor \<Rightarrow> world \<Rightarrow> exn + world" where
  "save_progress e p w =
     (case disk e (saves w) of
        MkdirFails \<Rightarrow> Inl OSError
      | OpenFails \<Rightarrow> Inr (w\<lparr>saves := Suc (saves w)\<rparr>)
      | DumpFails \<Rightarrow> Inr (w\<lparr>progress_file := Unparsable, saves := Suc (saves w)\<rparr>)
      | WriteOk \<Rightarrow> Inr (w\<lparr>progress_file := Parsed (payload_of p), saves := Suc (saves w)\<rparr>))"

text \<open>\<open>_load_progress\<close>: the assignments made before a conversion raises stay.\<close>

datatype load_result = Loaded | Absent | Warned

definition load_progress :: "processor \<Rightarrow> world \<Rightarrow> load_result \<times> processor" where
  "load_progress p w =
     (case progress_file w of
        NoFile \<Rightarrow> (Absent, p)
      | Unparsable \<Rightarrow> (Warned, p)
      | Parsed c \<Rightarrow>
          (let p1 = p\<lparr>root_folder := (case cp_root_folder c of None \<Rightarrow> root_folder p | Some r \<Rightarrow> r)\<rparr>
           in case cp_batch_size c of
                Bad \<Rightarrow> (Warned, p1)
              | bs \<Rightarrow>
                 (let p2 = p1\<lparr>batch_size := (case bs of Good b \<Rightarrow> b | _ \<Rightarrow> batch_size p1)\<rparr>
                  in case cp_conf_threshold c of
                       Bad \<Rightarrow> (Warned, p2)
                     | ct \<Rightarrow>
                        (let p3 = p2\<lparr>conf_threshold :=
                                         (case ct of Good t \<Rightarrow> t | _ \<Rightarrow> conf_threshold p2)\<rparr>;
                             p4 = p3\<lparr>records := (case cp_records c of None \<Rightarrow> [] | Some rs \<Rightarrow> rs)\<rparr>
                         in case cp_processed_paths c of
                              Bad \<Rightarrow> (Warned, p4)
                            | Missing \<Rightarrow> (Loaded, p4\<lparr>processed_paths := {}\<rparr>)
                            | Good ps \<Rightarrow> (Loaded, p4\<lparr>processed_paths := ps\<rparr>)))))"

subsection \<open>Classification of a batch\<close>

text \<open>Calling \<open>self.classifier\<close> while it is \<open>None\<close> raises \<open>TypeError\<close>.\<close>

definition call_many :: "env \<Rightarrow> processor \<Rightarrow> string list \<Rightarrow> exn + pyitem list" where
  "call_many e p batch_paths =
     (if classifier_loaded p then pipeline_many e batch_paths else Inl TypeError)"

definition call_one :: "env \<Rightarrow> processor \<Rightarrow> string \<Rightarrow> exn + pyitem" where
  "call_one e p img_path =
     (if classifier_loaded p then pipeline_one e img_path else Inl TypeError)"

fun normalize_item :: "pyitem \<Rightarrow> cresult" where
  "normalize_item (ItemList (r # rs)) = r"
| "normalize_item (ItemDict d) = d"
| "normalize_item _ = fallback_result"

definition classify_one :: "env \<Rightarrow> processor \<Rightarrow> string \<Rightarrow> cresult" where
  "classify_one e p img_path =
     (case call_one e p img_path of Inr r \<Rightarrow> normalize_item r | Inl x \<Rightarrow> fallback_result)"

definition classify_batch :: "env \<Rightarrow> processor \<Rightarrow> string list \<Rightarrow> exn + cresult list" where
  "classify_batch e p batch_paths =
     (case call_many e p batch_paths of
        Inr results \<Rightarrow> Inr (map normalize_item results)
      | Inl x \<Rightarrow> Inr (map (classify_one e p) batch_paths))"

subsection \<open>The batch loop\<close>

text \<open>A poll of the flag: a Stop pressed since the last poll has called \<open>stop\<close>.\<close>

definition poll_stop :: "env \<Rightarrow> processor \<times> world \<Rightarrow> processor \<times> world" where
  "poll_stop e pw =
     (case pw of (p, w) \<Rightarrow>
        (if stop_pressed e (polls w) then stop p else p, w\<lparr>polls := Suc (polls w)\<rparr>))"

text \<open>The body of the inner loop after the poll: build the record, append it, add the path.\<close>

definition process_item :: "env \<Rightarrow> processor \<Rightarrow> string \<Rightarrow> cresult \<Rightarrow> processor" where
  "process_item e p img_path result =
     (let r = record_from_path_and_result (exif_of e) (conf_threshold p) img_path result
      in p\<lparr>records := records p @ [r],
           processed_paths := insert img_path (processed_paths p)\<rparr>)"

text \<open>The inner loop over \<open>enumerate(batch)\<close>; \<open>results[j]\<close> raises \<open>IndexError\<close> out of range.\<close>

fun item_loop ::
  "env \<Rightarrow> cresult list \<Rightarrow> nat \<Rightarrow> string list \<Rightarrow> processor \<times> world \<Rightarrow> exn + processor \<times> world" where
  "item_loop e results j [] pw = Inr pw"
| "item_loop e results j (img_path # rest) pw =
     (case poll_stop e pw of (p1, w1) \<Rightarrow>
        if stop_flag p1 then Inr (p1, w1)
        else if j < length results
        then item_loop e results (Suc j) rest (process_item e p1 img_path (results ! j), w1)
        else Inl IndexError)"

text \<open>One iteration of the outer loop after its poll: classify the batch, run the inner
  loop, save the checkpoint.\<close>

definition run_batch :: "env \<Rightarrow> string list \<Rightarrow> processor \<times> world \<Rightarrow> exn + processor \<times> world" where
  "run_batch e batch pw =
     (case pw of (p, w) \<Rightarrow>
        (case classify_batch e p batch of
           Inl x \<Rightarrow> Inl x
         | Inr results \<Rightarrow>
            (case item_loop e results 0 batch (p, w\<lparr>submitted := submitted w @ [batch]\<rparr>) of
               Inl x \<Rightarrow> Inl x
             | Inr (p1, w1) \<Rightarrow>
                (case save_progress e p1 w1 of Inl x \<Rightarrow> Inl x | Inr w2 \<Rightarrow> Inr (p1, w2)))))"

text \<open>The outer loop \<open>for i in range(0, len(all_paths), batch_size)\<close> for a positive step,
  with \<open>batch = all_paths[i:i + batch_size]\<close>. The loops of \<open>process_new\<close> and of
  \<open>process_resume\<close> differ only in the status message.\<close>

function batch_loop ::
  "env \<Rightarrow> string list \<Rightarrow> nat \<Rightarrow> nat \<Rightarrow> processor \<times> world \<Rightarrow> exn + processor \<times> world" where
  "batch_loop e all_paths bs i pw =
     (if bs = 0 \<or> length all_paths \<le> i then Inr pw
      else (case poll_stop e pw of (p1, w1) \<Rightarrow>
              if stop_flag p1 then Inr (p1, w1)
              else (case run_batch e (take bs (drop i all_paths)) (p1, w1) of
                      Inl x \<Rightarrow> Inl x
                    | Inr pw2 \<Rightarrow> batch_loop e all_paths bs (i + bs) pw2)))"
  by pat_completeness auto
termination
  by (relation "measure (\<lambda>(e, all_paths, bs, i, pw). length all_paths - i)") auto

declare batch_loop.simps [simp del]

text \<open>\<open>range\<close> raises \<open>ValueError\<close> for a step of zero and is empty for a negative one.\<close>

definition run_batches :: "env \<Rightarrow> string list \<Rightarrow> processor \<times> world \<Rightarrow> exn + processor \<times> world" where
  "run_batches e all_paths pw =
     (case pw of (p, w) \<Rightarrow>
        if batch_size p = 0 then Inl ValueError
        else if batch_size p < 0 then Inr (p, w)
        else batch_loop e all_paths (nat (batch_size p)) 0 (p, w))"

subsection \<open>Finalization and the two entry points\<close>

definition export_row_of :: "image_record \<Rightarrow> export_row" where
  "export_row_of r =
     \<lparr>col_animal_folder = rec_animal_folder r, col_block = rec_block r,
      col_camera_id = rec_camera_id r, col_animal_name = rec_animal_name r,
      col_date = rec_date r, col_time = rec_time r\<rparr>"

definition finalize_processing :: "env \<Rightarrow> processor \<Rightarrow> world \<Rightarrow> exn + world" where
  "finalize_processing e p w =
     (if excel_ok e
      then save_progress e p (w\<lparr>excel_file := Some (map export_row_of (records p))\<rparr>)
      else Inl OSError)"

datatype outcome = ModelErrorShown | NoImages | NotResumed | NothingToProcess | Finished

definition process_new :: "env \<Rightarrow> processor \<Rightarrow> world \<Rightarrow> exn + outcome \<times> processor \<times> world" where
  "process_new e p w =
     (let p0 = reset_state p
      in case load_model e p0 of
           Inl x \<Rightarrow> Inr (ModelErrorShown, p0, w)
         | Inr p1 \<Rightarrow>
            (case scan_all_images e p1 of
               Inl x \<Rightarrow> Inl x
             | Inr all_paths \<Rightarrow>
                if all_paths = [] then Inr (NoImages, p1, w)
                else (case run_batches e all_paths (p1, w) of
                        Inl x \<Rightarrow> Inl x
                      | Inr (p2, w2) \<Rightarrow>
                         (case finalize_processing e p2 w2 of
                            Inl x \<Rightarrow> Inl x
                          | Inr w3 \<Rightarrow> Inr (Finished, p2, w3)))))"

definition process_resume :: "env \<Rightarrow> processor \<Rightarrow> world \<Rightarrow> exn + outcome \<times> processor \<times> world" where
  "process_resume e p w =
     (case load_progress p w of (lr, p0) \<Rightarrow>
        if lr \<noteq> Loaded then Inr (NotResumed, p0, w)
        else (case (if classifier_loaded p0 then Inr p0 else load_model e p0) of
                Inl x \<Rightarrow> Inr (ModelErrorShown, p0, w)
              | Inr p1 \<Rightarrow>
                 (case scan_all_images e p1 of
                    Inl x \<Rightarrow> Inl x
                  | Inr remaining \<Rightarrow>
                     (let total = length remaining + card (processed_paths p1)
                      in if total = 0 then Inr (NothingToProcess, p1, w)
                         else (case run_batches e remaining (p1, w) of
                                 Inl x \<Rightarrow> Inl x
                               | Inr (p2, w2) \<Rightarrow>
                                  (case finalize_processing e p2 w2 of
                                     Inl x \<Rightarrow> Inl x
                                   | Inr w3 \<Rightarrow> Inr (Finished, p2, w3)))))))"

section \<open>Example environments\<close>

text \<open>A folder \<open>r\<close> with one directory holding two images, a sidecar file and a text
  file; a pipeline that labels every image a red fox; a pipeline that fails on every
  batch and on the image \<open>b\<close>.\<close>

definition fox :: cresult where
  "fox = \<lparr>res_label = Some ''red fox, Vulpes vulpes'', res_score = Some 0.9\<rparr>"

definition demo_env :: env where
  "demo_env =
     \<lparr>os_walk = (\<lambda>r. if r = ''r'' then [(''r/d'', [''a.PNG'', ''._b.jpg'', ''c.txt'', ''e.jpeg''])]
                      else []),
      exif_of = (\<lambda>q. None),
      model_loads = True,
      pipeline_many = (\<lambda>b. Inr (map (\<lambda>q. ItemList [fox]) b)),
      pipeline_one = (\<lambda>q. Inr (ItemList [fox])),
      stop_pressed = (\<lambda>n. False),
      disk = (\<lambda>n. WriteOk),
      excel_ok = True\<rparr>"

definition demo_world :: world where
  "demo_world = \<lparr>progress_file = NoFile, excel_file = None, submitted = [], polls = 0, saves = 0\<rparr>"

definition demo_proc :: processor where
  "demo_proc = set_params ''r'' 1 0.5 init_processor"

definition flaky_env :: env where
  "flaky_env = demo_env\<lparr>pipeline_many := (\<lambda>b. Inl OSError),
                        pipeline_one := (\<lambda>q. if q = ''b'' then Inl OSError else Inr (ItemList [fox]))\<rparr>"

section \<open>Notions used in the statements and proofs\<close>

text \<open>The record built for a path and its result under the processor's threshold; two
  processors with the same configuration; two worlds with the same files and counters of
  saves; the ledger invariant: the records' paths are pairwise distinct and are exactly
  the processed paths.\<close>

definition build :: "env \<Rightarrow> processor \<Rightarrow> string \<times> cresult \<Rightarrow> image_record" where
  "build e p = (\<lambda>(q, r). record_from_path_and_result (exif_of e) (conf_threshold p) q r)"

definition same_config :: "processor \<Rightarrow> processor \<Rightarrow> bool" where
  "same_config p p' \<longleftrightarrow>
     root_folder p' = root_folder p \<and> batch_size p' = batch_size p
     \<and> conf_threshold p' = conf_threshold p \<and> classifier_loaded p' = classifier_loaded p"

definition same_files :: "world \<Rightarrow> world \<Rightarrow> bool" where
  "same_files w w' \<longleftrightarrow>
     progress_file w' = progress_file w \<and> excel_file w' = excel_file w
     \<and> submitted w' = submitted w \<and> saves w' = saves w"

definition ledger_ok :: "processor \<Rightarrow> bool" where
  "ledger_ok p \<longleftrightarrow>
     distinct (map rec_path (records p)) \<and> set (map rec_path (records p)) = processed_paths p"

text \<open>The contract of the collaborators under which a run raises nothing: the pipeline
  returns one item per path of a batch, the output directory can be created, and the
  spreadsheet can be written.\<close>

definition env_ok :: "env \<Rightarrow> bool" where
  "env_ok e \<longleftrightarrow>
     (\<forall>batch rs. pipeline_many e batch = Inr rs \<longrightarrow> length rs = length batch)
     \<and> (\<forall>n. disk e n \<noteq> MkdirFails) \<and> excel_ok e"

text \<open>The full paths of all files under a root, in the order of the walk.\<close>

definition walk_paths :: "env \<Rightarrow> string \<Rightarrow> string list" where
  "walk_paths e r = concat (map (\<lambda>(d, files). map (path_join d) files) (os_walk e r))"

text \<open>A Stop pressed between the first and the second item of a batch; a processor with
  its parameters set and its model loaded.\<close>

definition mid_stop_env :: env where
  "mid_stop_env = demo_env\<lparr>stop_pressed := (\<lambda>n. n = 1)\<rparr>"

definition ready_proc :: processor where
  "ready_proc = demo_proc\<lparr>classifier_loaded := True\<rparr>"

text \<open>A world whose checkpoint file was saved from the example processor before any
  image was processed.\<close>

definition saved_world :: world where
  "saved_world = demo_world\<lparr>progress_file := Parsed (payload_of demo_proc)\<rparr>"

text \<open>A Stop pressed after the first batch of one image, before the second.\<close>

definition late_stop_env :: env where
  "late_stop_env = demo_env\<lparr>stop_pressed := (\<lambda>n. n = 2)\<rparr>"

section \<open>Facts about the string functions\<close>

lemma split_on_not_Nil: "split_on sep s \<noteq> []"
  by (induction s) (auto split: list.splits)

lemma split_on_append:
  "split_on sep (xs @ sep # ys) = split_on sep xs @ split_on sep ys"
  by (induction xs) (auto simp: split_on_not_Nil split: list.splits)

lemma hd_split_on_Cons:
  "c \<noteq> sep \<Longrightarrow> hd (split_on sep (c # cs)) = c # hd (split_on sep cs)"
  using split_on_not_Nil [of sep cs] by (auto split: list.splits)

lemma hex_table: "\<forall>k \<in> set [0..<16]. unreserved (''0123456789ABCDEF'' ! k)"
  by code_simp

lemma hex_digit_unreserved: "unreserved (hex_digit n)"
proof -
  have "n mod 16 \<in> set [0..<16]" by simp
  with hex_table show ?thesis
    unfolding hex_digit_def by blast
qed

lemma pct_byte_chars: "c \<in> set (pct_byte b) \<Longrightarrow> unreserved c \<or> c = CHR ''%''"
  by (auto simp: pct_byte_def hex_digit_unreserved)

lemma quote_char_chars:
  "c \<in> set (quote_char d) \<Longrightarrow> unreserved c \<or> c = CHR ''%'' \<or> c = CHR ''+''"
  by (auto simp: quote_char_def Let_def dest: pct_byte_chars split: if_splits)

lemma quote_plus_chars:
  "c \<in> set (quote_plus s) \<Longrightarrow> unreserved c \<or> c = CHR ''%'' \<or> c = CHR ''+''"
  by (auto simp: quote_plus_def dest: quote_char_chars)

lemma quote_plus_fixed:
  "quote_plus ''wildlife+image+unidentified'' = ''wildlife%2Bimage%2Bunidentified''"
  by code_simp

section \<open>The resolved animal name\<close>

text \<open>
  C1 (as amended). The resolved name is \<open>Unidentified\<close> exactly when the score is below
  the threshold or the trimmed first comma-separated segment of the label (the label
  itself being \<open>Unidentified\<close> when it is absent or empty) is \<open>Unidentified\<close>; the record
  stores the link formula built from the resolved name.
\<close>

theorem resolved_name_unidentified:
  "(resolve_animal_name t r = ''Unidentified''
      \<longleftrightarrow> score_of r < t \<or> first_segment (label_of r) = ''Unidentified'')
   \<and> rec_animal_name (record_from_path_and_result ex t img_path r)
       = build_hyperlink_for_animal (Some (resolve_animal_name t r))"
  by (simp add: resolve_animal_name_def record_from_path_and_result_def Let_def
      split: prod.splits)

text \<open>The claim as written fails on the program's own fallback result with threshold 0:
  the name is \<open>Unidentified\<close> although the score is not below the threshold.\<close>

theorem resolved_name_counterexample:
  "\<not> (resolve_animal_name 0 fallback_result = ''Unidentified''
        \<longleftrightarrow> score_of fallback_result < 0)"
  by (simp add: resolve_animal_name_def fallback_result_def label_of_def score_of_def
      first_segment_def strip_def is_space_def)

section \<open>The link formula\<close>

text \<open>
  The shape of the formula, for every name: \<open>=HYPERLINK("URL", "DISPLAY")\<close>, where the
  display text is the name, or \<open>Unidentified\<close> for an absent or empty name; the URL is
  the search URL followed by the percent-encoded query, the query being the display text
  unless that is \<open>unidentified\<close> in any letter case, when the encoded query is
  \<open>wildlife%2Bimage%2Bunidentified\<close>; the encoded query holds only unreserved characters,
  \<open>%\<close> and \<open>+\<close>.
\<close>

lemma hyperlink_formula:
  \<open>\<exists>display query.
     display = (case name of None \<Rightarrow> ''Unidentified''
                | Some n \<Rightarrow> if n = [] then ''Unidentified'' else n)
     \<and> query = quote_plus (if lower display = ''unidentified''
                            then ''wildlife+image+unidentified'' else display)
     \<and> build_hyperlink_for_animal name
         = ''=HYPERLINK("https://www.google.com/search?q='' @ query @ ''", "'' @ display @ ''")''
     \<and> (\<forall>c \<in> set query. unreserved c \<or> c = CHR ''%'' \<or> c = CHR ''+'')
     \<and> (lower display = ''unidentified'' \<longrightarrow> query = ''wildlife%2Bimage%2Bunidentified'')\<close>
proof -
  define display where
    "display = (case name of None \<Rightarrow> ''Unidentified''
                | Some n \<Rightarrow> if n = [] then ''Unidentified'' else n)"
  define query where
    "query = quote_plus (if lower display = ''unidentified''
                         then ''wildlife+image+unidentified'' else display)"
  have formula: \<open>build_hyperlink_for_animal name
         = ''=HYPERLINK("https://www.google.com/search?q='' @ query @ ''", "'' @ display @ ''")''\<close>
    unfolding build_hyperlink_for_animal_def Let_def query_def display_def by simp
  have safe: "\<forall>c \<in> set query. unreserved c \<or> c = CHR ''%'' \<or> c = CHR ''+''"
    unfolding query_def using quote_plus_chars by blast
  have fixed: "lower display = ''unidentified'' \<longrightarrow> query = ''wildlife%2Bimage%2Bunidentified''"
    unfolding query_def using quote_plus_fixed by presburger
  from display_def query_def formula safe fixed show ?thesis by blast
qed

lemma lower_upper_unidentified: "lower ''UNIDENTIFIED'' = ''unidentified''"
  by code_simp

text \<open>A name written in capitals takes the fixed query.\<close>

lemma hyperlink_formula_capitals:
  \<open>lower ''UNIDENTIFIED'' = ''unidentified''
   \<and> build_hyperlink_for_animal (Some ''UNIDENTIFIED'')
       = ''=HYPERLINK("https://www.google.com/search?q=wildlife%2Bimage%2Bunidentified", "UNIDENTIFIED")''\<close>
proof -
  from hyperlink_formula [of "Some ''UNIDENTIFIED''"]
  obtain display query where
    d: "display = ''UNIDENTIFIED''" and
    f: \<open>build_hyperlink_for_animal (Some ''UNIDENTIFIED'')
         = ''=HYPERLINK("https://www.google.com/search?q='' @ query @ ''", "'' @ display @ ''")''\<close> and
    q: "lower display = ''unidentified'' \<longrightarrow> query = ''wildlife%2Bimage%2Bunidentified''"
    by auto
  from d q lower_upper_unidentified have "query = ''wildlife%2Bimage%2Bunidentified''"
    by blast
  with f d lower_upper_unidentified show ?thesis by simp
qed

text \<open>The encoded query never holds a double quote. For a display text without a double
  quote the formula holds exactly four of them, those that delimit its two string
  literals: there the display text, inserted as it is, is a well-formed literal.\<close>

lemma quote_plus_no_dquote: \<open>filter (\<lambda>c. c = CHR 0x22) (quote_plus s) = []\<close>
proof -
  have \<open>\<not> unreserved (CHR 0x22)\<close> by (simp add: unreserved_def)
  then have \<open>c \<in> set (quote_plus s) \<Longrightarrow> c \<noteq> CHR 0x22\<close> for c
    using quote_plus_chars [of c s] by auto
  then show ?thesis by (simp add: filter_empty_conv)
qed

lemma hyperlink_well_formed:
  assumes \<open>CHR 0x22 \<notin> set (case name of None \<Rightarrow> ''Unidentified''
                              | Some n \<Rightarrow> if n = [] then ''Unidentified'' else n)\<close>
  shows \<open>length (filter (\<lambda>c. c = CHR 0x22) (build_hyperlink_for_animal name)) = 4\<close>
proof -
  define display where
    "display = (case name of None \<Rightarrow> ''Unidentified''
                | Some n \<Rightarrow> if n = [] then ''Unidentified'' else n)"
  from assms have \<open>filter (\<lambda>c. c = CHR 0x22) display = []\<close>
    unfolding display_def filter_empty_conv by blast
  then show ?thesis
    unfolding build_hyperlink_for_animal_def Let_def display_def [symmetric]
    by (simp add: quote_plus_no_dquote)
qed

text \<open>
  C6. The cell is to be a link formula whose display text and query are encoded as their
  places in the URL and in the formula's string literals require. For the name
  \<open>big "cat"\<close> the function returns the formula below: the query is percent-encoded, but
  the display text is not escaped, so its first double quote ends the second string
  literal, and the formula holds six double quotes where a well-formed one holds four.
\<close>

theorem hyperlink_quote_unescaped:
  \<open>build_hyperlink_for_animal (Some ''big "cat"'')
     = ''=HYPERLINK("https://www.google.com/search?q=big+%22cat%22", "big "cat"")''
   \<and> length (filter (\<lambda>c. c = CHR 0x22) (build_hyperlink_for_animal (Some ''big "cat"''))) = 6\<close>
  by code_simp

section \<open>The scenario of the deer image\<close>

lemma find_datetime_first:
  "\<forall>(tag, v) \<in> set pre. tag \<noteq> ''DateTime'' \<Longrightarrow>
   find_datetime (pre @ (''DateTime'', v) # post) = find_datetime [(''DateTime'', v)]"
  by (induction pre) auto

lemma datetime_value:
  "find_datetime [(''DateTime'', ''2023:05:01 14:22:10'')] = (Some ''2023-05-01'', Some ''14:22:10'')"
  by (simp add: replace_char_def)

lemma split_deer:
  "split_on CHR ''/'' (r @ ''/BlockA/Cam1/Deer/img1.jpg'')
     = split_on CHR ''/'' r @ [''BlockA'', ''Cam1'', ''Deer'', ''img1.jpg'']"
proof -
  have "split_on CHR ''/'' (r @ CHR ''/'' # ''BlockA/Cam1/Deer/img1.jpg'')
        = split_on CHR ''/'' r @ split_on CHR ''/'' ''BlockA/Cam1/Deer/img1.jpg''"
    by (rule split_on_append)
  then show ?thesis by simp
qed

lemma parse_deer:
  "parse_path_parts (r @ ''/BlockA/Cam1/Deer/img1.jpg'') = (Some ''Deer'', Some ''BlockA'', Some ''Cam1'')"
  by (simp add: parse_path_parts_def os_sep_def split_deer Let_def nth_append)

lemma resolve_deer:
  "resolve_animal_name 0.5 \<lparr>res_label = Some ''deer, white-tailed'', res_score = Some 0.9\<rparr> = ''deer''"
  by (simp add: resolve_animal_name_def label_of_def score_of_def first_segment_def strip_def
      is_space_def)

lemma hyperlink_deer:
  \<open>build_hyperlink_for_animal (Some ''deer'') = ''=HYPERLINK("https://www.google.com/search?q=deer", "deer")''\<close>
  by code_simp


text \<open>
  C9. For the image \<open>root/BlockA/Cam1/Deer/img1.jpg\<close> under any root, an EXIF table whose
  first \<open>DateTime\<close> tag is \<open>2023:05:01 14:22:10\<close>, threshold 0.5 and the result
  \<open>{label: "deer, white-tailed", score: 0.9}\<close>, the resolved name is \<open>deer\<close> and the record
  has animal folder \<open>Deer\<close>, camera id \<open>Cam1\<close>, block \<open>BlockA\<close>, the link formula of
  \<open>deer\<close>, date \<open>2023-05-01\<close> and time \<open>14:22:10\<close>.
\<close>

theorem deer_scenario:
  assumes "ex (r @ ''/BlockA/Cam1/Deer/img1.jpg'') = Some (pre @ (''DateTime'', ''2023:05:01 14:22:10'') # post)"
    and "\<forall>(tag, v) \<in> set pre. tag \<noteq> ''DateTime''"
  shows \<open>resolve_animal_name 0.5 \<lparr>res_label = Some ''deer, white-tailed'', res_score = Some 0.9\<rparr> = ''deer''
    \<and> record_from_path_and_result ex 0.5 (r @ ''/BlockA/Cam1/Deer/img1.jpg'')
        \<lparr>res_label = Some ''deer, white-tailed'', res_score = Some 0.9\<rparr>
      = \<lparr>rec_animal_folder = Some ''Deer'', rec_block = Some ''BlockA'', rec_camera_id = Some ''Cam1'',
         rec_animal_name = ''=HYPERLINK("https://www.google.com/search?q=deer", "deer")'',
         rec_date = Some ''2023-05-01'', rec_time = Some ''14:22:10'',
         rec_path = r @ ''/BlockA/Cam1/Deer/img1.jpg''\<rparr>\<close>
proof -
  have meta: "extract_metadata ex (r @ ''/BlockA/Cam1/Deer/img1.jpg'') = (Some ''2023-05-01'', Some ''14:22:10'')"
    unfolding extract_metadata_def using assms
    by (simp only: option.case find_datetime_first datetime_value)
  show ?thesis
    unfolding record_from_path_and_result_def Let_def meta parse_deer resolve_deer hyperlink_deer
    by simp
qed

text \<open>The scenario under the root \<open>/data\<close>, with another tag before \<open>DateTime\<close>.\<close>

theorem deer_scenario_witness:
  \<open>record_from_path_and_result (\<lambda>q. Some [(''Make'', ''Acme''), (''DateTime'', ''2023:05:01 14:22:10'')]) 0.5
      ''/data/BlockA/Cam1/Deer/img1.jpg'' \<lparr>res_label = Some ''deer, white-tailed'', res_score = Some 0.9\<rparr>
    = \<lparr>rec_animal_folder = Some ''Deer'', rec_block = Some ''BlockA'', rec_camera_id = Some ''Cam1'',
         rec_animal_name = ''=HYPERLINK("https://www.google.com/search?q=deer", "deer")'',
         rec_date = Some ''2023-05-01'', rec_time = Some ''14:22:10'',
         rec_path = ''/data/BlockA/Cam1/Deer/img1.jpg''\<rparr>\<close>
proof -
  have tags: "(\<lambda>q::string. Some [(''Make'', ''Acme''), (''DateTime'', ''2023:05:01 14:22:10'')])
                (''/data'' @ ''/BlockA/Cam1/Deer/img1.jpg'')
              = Some ([(''Make'', ''Acme'')] @ (''DateTime'', ''2023:05:01 14:22:10'') # [])"
    by simp
  have pre: "\<forall>(tag, v) \<in> set [(''Make'', ''Acme'')]. tag \<noteq> ''DateTime''"
    by simp
  from deer_scenario [where r = "''/data''", OF tags pre] show ?thesis by simp
qed

section \<open>The scanner\<close>

lemma scan_files_iff:
  "full \<in> set (scan_files excluded d files) \<longleftrightarrow>
     (\<exists>f \<in> set files. full = path_join d f \<and> \<not> startswith f ''._'' \<and> image_suffix f
        \<and> full \<notin> excluded)"
  by (induction files) (auto simp: Let_def)

text \<open>
  C7. For a root folder and a processed-paths set, the scanner returns a list (not an
  error); a path is in it if and only if it is the join of a walked directory and one of
  its file names such that the name does not begin with \<open>._\<close>, the lower-cased name ends
  with \<open>.jpg\<close>, \<open>.jpeg\<close> or \<open>.png\<close>, and the path is not in the processed set; when no
  file qualifies the list is empty.
\<close>

theorem scanner_candidates:
  assumes "root_folder p = Some r"
  shows "\<exists>paths. scan_all_images e p = Inr paths
     \<and> (\<forall>full. full \<in> set paths \<longleftrightarrow>
           (\<exists>(d, files) \<in> set (os_walk e r). \<exists>f \<in> set files.
              full = path_join d f
              \<and> \<not> startswith f ''._''
              \<and> (endswith (lower f) ''.jpg'' \<or> endswith (lower f) ''.jpeg''
                   \<or> endswith (lower f) ''.png'')
              \<and> full \<notin> processed_paths p))
     \<and> ((\<forall>(d, files) \<in> set (os_walk e r). \<forall>f \<in> set files.
            startswith f ''._''
            \<or> \<not> (endswith (lower f) ''.jpg'' \<or> endswith (lower f) ''.jpeg''
                    \<or> endswith (lower f) ''.png'')
            \<or> path_join d f \<in> processed_paths p)
          \<longrightarrow> paths = [])"
proof -
  define paths where
    "paths = concat (map (\<lambda>(d, files). scan_files (processed_paths p) d files) (os_walk e r))"
  have res: "scan_all_images e p = Inr paths"
    using assms by (simp add: scan_all_images_def paths_def)
  have mem: "full \<in> set paths \<longleftrightarrow>
           (\<exists>(d, files) \<in> set (os_walk e r). \<exists>f \<in> set files.
              full = path_join d f
              \<and> \<not> startswith f ''._''
              \<and> (endswith (lower f) ''.jpg'' \<or> endswith (lower f) ''.jpeg''
                   \<or> endswith (lower f) ''.png'')
              \<and> full \<notin> processed_paths p)" for full
    unfolding paths_def by (auto simp: scan_files_iff image_suffix_def)
  have none: "(\<forall>(d, files) \<in> set (os_walk e r). \<forall>f \<in> set files.
            startswith f ''._''
            \<or> \<not> (endswith (lower f) ''.jpg'' \<or> endswith (lower f) ''.jpeg''
                    \<or> endswith (lower f) ''.png'')
            \<or> path_join d f \<in> processed_paths p)
          \<longrightarrow> paths = []"
  proof
    assume h: "\<forall>(d, files) \<in> set (os_walk e r). \<forall>f \<in> set files.
            startswith f ''._''
            \<or> \<not> (endswith (lower f) ''.jpg'' \<or> endswith (lower f) ''.jpeg''
                    \<or> endswith (lower f) ''.png'')
            \<or> path_join d f \<in> processed_paths p"
    show "paths = []"
    proof (cases paths)
      case Nil
      then show ?thesis .
    next
      case (Cons full rest)
      then have "full \<in> set paths" by simp
      with mem [of full] h show ?thesis by fast
    qed
  qed
  from res mem none show ?thesis by blast
qed

text \<open>In the example folder the scanner keeps the two images and drops the sidecar and
  the text file.\<close>

lemma demo_scan_files:
  "scan_files {} ''r/d'' [''a.PNG'', ''._b.jpg'', ''c.txt'', ''e.jpeg''] = [''r/d/a.PNG'', ''r/d/e.jpeg'']"
  by code_simp

theorem scanner_candidates_witness:
  "root_folder demo_proc = Some ''r''
   \<and> scan_all_images demo_env demo_proc = Inr [''r/d/a.PNG'', ''r/d/e.jpeg'']"
proof -
  have root: "root_folder demo_proc = Some ''r''"
    by (simp add: demo_proc_def set_params_def)
  from scanner_candidates [OF root, of demo_env]
  obtain paths where res: "scan_all_images demo_env demo_proc = Inr paths"
    by blast
  have "scan_all_images demo_env demo_proc = Inr [''r/d/a.PNG'', ''r/d/e.jpeg'']"
    by (simp add: scan_all_images_def demo_proc_def set_params_def init_processor_def
        demo_env_def demo_scan_files del: scan_files.simps)
  with res root show ?thesis by simp
qed

section \<open>Classification of a batch\<close>

text \<open>
  C5. \<open>_classify_batch\<close> always returns a list, never an exception. When the call on the
  whole batch returns one item per path, the result has one entry per path, in order,
  each the normalised item. When that call raises, every path is classified alone, in
  order, and a path whose own call raises gets the fallback result
  \<open>{label: "Unidentified", score: 0.0}\<close>.
\<close>

theorem classify_batch_results:
  "\<exists>rs. classify_batch e p batch = Inr rs
     \<and> (\<forall>results. call_many e p batch = Inr results \<and> length results = length batch
            \<longrightarrow> length rs = length batch
                \<and> (\<forall>i < length batch. rs ! i = normalize_item (results ! i)))
     \<and> (\<forall>x. call_many e p batch = Inl x
            \<longrightarrow> length rs = length batch
                \<and> (\<forall>i < length batch.
                      rs ! i = (case call_one e p (batch ! i) of
                                  Inr r \<Rightarrow> normalize_item r
                                | Inl y \<Rightarrow> fallback_result)))"
  by (cases "call_many e p batch") (auto simp: classify_batch_def classify_one_def)

text \<open>A pipeline that fails on the batch and on the second image: only that image gets
  the fallback result.\<close>

theorem classify_batch_results_witness:
  "call_many flaky_env (demo_proc\<lparr>classifier_loaded := True\<rparr>) [''a'', ''b'', ''c''] = Inl OSError
   \<and> classify_batch flaky_env (demo_proc\<lparr>classifier_loaded := True\<rparr>) [''a'', ''b'', ''c'']
       = Inr [fox, fallback_result, fox]"
proof -
  let ?p = "demo_proc\<lparr>classifier_loaded := True\<rparr>"
  have fails: "call_many flaky_env ?p [''a'', ''b'', ''c''] = Inl OSError"
    by (simp add: call_many_def flaky_env_def)
  from classify_batch_results [of flaky_env ?p "[''a'', ''b'', ''c'']"] fails
  obtain rs where rs: "classify_batch flaky_env ?p [''a'', ''b'', ''c''] = Inr rs"
    and len: "length rs = 3"
    and nth: "\<forall>i < 3. rs ! i = (case call_one flaky_env ?p ([''a'', ''b'', ''c''] ! i) of
                                  Inr r \<Rightarrow> normalize_item r | Inl y \<Rightarrow> fallback_result)"
    by auto
  have "rs ! 0 = fox" "rs ! 1 = fallback_result" "rs ! 2 = fox"
    using nth by (simp_all add: call_one_def flaky_env_def)
  with len have "rs = [fox, fallback_result, fox]"
    by (auto simp: list_eq_iff_nth_eq less_Suc_eq numeral_3_eq_3 numeral_2_eq_2)
  with rs fails show ?thesis by simp
qed

section \<open>The checkpoint store\<close>

text \<open>
  C8. \<open>_save_progress\<close> calls \<open>safe_makedirs(OUTPUT_DIR)\<close> before its \<open>try\<close>: when the
  output directory cannot be created the call raises \<open>OSError\<close>, for every run state.
\<close>

theorem save_progress_raises:
  "save_progress (e\<lparr>disk := (\<lambda>n. MkdirFails)\<rparr>) p w = Inl OSError"
  by (simp add: save_progress_def)

text \<open>With the directory in place a save never raises, and a load never raises: it
  answers \<open>Absent\<close> without a file and \<open>Warned\<close> on a file it cannot use.\<close>

lemma save_progress_no_raise:
  "disk e (saves w) \<noteq> MkdirFails \<Longrightarrow> \<exists>w'. save_progress e p w = Inr w'"
  by (cases "disk e (saves w)") (simp_all add: save_progress_def)

lemma load_progress_absent:
  "progress_file w = NoFile \<Longrightarrow> load_progress p w = (Absent, p)"
  by (simp add: load_progress_def)

lemma load_progress_unparsable:
  "progress_file w = Unparsable \<Longrightarrow> load_progress p w = (Warned, p)"
  by (simp add: load_progress_def)

section \<open>The loops\<close>

lemma same_config_refl [simp]: "same_config p p"
  by (simp add: same_config_def)

lemma same_config_trans: "same_config p p1 \<Longrightarrow> same_config p1 p2 \<Longrightarrow> same_config p p2"
  by (simp add: same_config_def)

lemma same_files_refl [simp]: "same_files w w"
  by (simp add: same_files_def)

lemma same_files_trans: "same_files w w1 \<Longrightarrow> same_files w1 w2 \<Longrightarrow> same_files w w2"
  by (simp add: same_files_def)

lemma build_same_config: "same_config p p' \<Longrightarrow> build e p' = build e p"
  by (simp add: build_def same_config_def)

lemma poll_stop_facts:
  assumes "poll_stop e (p, w) = (p1, w1)"
  shows "records p1 = records p" "processed_paths p1 = processed_paths p"
    "same_config p p1" "same_files w w1"
    "stop_flag p1 \<longleftrightarrow> stop_flag p \<or> stop_pressed e (polls w)"
    "polls w1 = Suc (polls w)"
  using assms by (auto simp: poll_stop_def stop_def same_config_def same_files_def split: if_splits)

lemma process_item_facts:
  "records (process_item e p q r) = records p @ [build e p (q, r)]"
  "processed_paths (process_item e p q r) = insert q (processed_paths p)"
  "same_config p (process_item e p q r)"
  "stop_flag (process_item e p q r) = stop_flag p"
  by (simp_all add: process_item_def build_def Let_def same_config_def)

lemma item_loop_Inr:
  "item_loop e results j items (p, w) = Inr (p', w') \<Longrightarrow>
   \<exists>k \<le> length items.
      records p' = records p @ map (build e p) (take k (zip items (drop j results)))
      \<and> processed_paths p' = processed_paths p \<union> set (take k items)
      \<and> k \<le> length results - j
      \<and> (k < length items \<longrightarrow> stop_flag p')
      \<and> (stop_flag p \<longrightarrow> stop_flag p')
      \<and> same_config p p' \<and> same_files w w'"
proof (induction items arbitrary: j p w)
  case Nil
  then show ?case by simp
next
  case (Cons q rest)
  obtain p1 w1 where poll: "poll_stop e (p, w) = (p1, w1)" by (cases "poll_stop e (p, w)")
  note pf = poll_stop_facts [OF poll]
  show ?case
  proof (cases "stop_flag p1")
    case True
    with Cons.prems poll have "p' = p1" "w' = w1" by simp_all
    with pf True show ?thesis by (intro exI [of _ 0]) simp
  next
    case False
    with Cons.prems poll have j: "j < length results"
      and rec: "item_loop e results (Suc j) rest (process_item e p1 q (results ! j), w1) = Inr (p', w')"
      by (simp_all split: if_splits)
    let ?p2 = "process_item e p1 q (results ! j)"
    from Cons.IH [OF rec] obtain k where k: "k \<le> length rest"
      and recs: "records p' = records ?p2 @ map (build e ?p2) (take k (zip rest (drop (Suc j) results)))"
      and proc: "processed_paths p' = processed_paths ?p2 \<union> set (take k rest)"
      and len: "k \<le> length results - Suc j"
      and cut: "k < length rest \<longrightarrow> stop_flag p'"
      and cfg: "same_config ?p2 p'" and fl: "same_files w1 w'"
      by blast
    have cfg2: "same_config p ?p2"
      using pf(3) process_item_facts(3) [of p1 e q "results ! j"] by (rule same_config_trans)
    have b2: "build e ?p2 = build e p" using cfg2 by (rule build_same_config)
    have b1: "build e p1 = build e p" using pf(3) by (rule build_same_config)
    have dr: "drop j results = results ! j # drop (Suc j) results"
      using j by (simp add: Cons_nth_drop_Suc)
    have "records p' = records p @ map (build e p) (take (Suc k) (zip (q # rest) (drop j results)))"
      using recs pf(1) by (simp add: process_item_facts b2 b1 dr)
    moreover have "processed_paths p' = processed_paths p \<union> set (take (Suc k) (q # rest))"
      using proc pf(2) by (simp add: process_item_facts)
    moreover have "same_config p p'" using cfg2 cfg by (rule same_config_trans)
    moreover have "same_files w w'" using pf(4) fl by (rule same_files_trans)
    moreover have "stop_flag p \<longrightarrow> stop_flag p'" using False pf(5) by simp
    ultimately show ?thesis
      using k len cut j by (intro exI [of _ "Suc k"]) simp
  qed
qed

lemma item_loop_returns:
  "j + length items \<le> length results \<Longrightarrow> \<exists>p' w'. item_loop e results j items (p, w) = Inr (p', w')"
proof (induction items arbitrary: j p w)
  case Nil
  then show ?case by simp
next
  case (Cons q rest)
  obtain p1 w1 where poll: "poll_stop e (p, w) = (p1, w1)" by (cases "poll_stop e (p, w)")
  from Cons.prems have "j < length results" "Suc j + length rest \<le> length results" by simp_all
  with Cons.IH [of "Suc j"] poll show ?case by simp
qed

lemma rec_path_build [simp]: "rec_path (build e p (q, r)) = q"
  by (simp add: build_def record_from_path_and_result_def Let_def split: prod.splits)

lemma map_fst_take_zip:
  "k \<le> length rs \<Longrightarrow> map fst (take k (zip items rs)) = take k items"
proof (induction items arbitrary: k rs)
  case Nil
  then show ?case by simp
next
  case (Cons q items)
  show ?case
  proof (cases k)
    case 0
    then show ?thesis by simp
  next
    case (Suc k')
    with Cons.prems obtain r rs' where rs: "rs = r # rs'" and "k' \<le> length rs'"
      by (cases rs) auto
    with Cons.IH [of k' rs'] Suc show ?thesis by simp
  qed
qed

lemma map_rec_path_build:
  assumes "k \<le> length rs"
  shows "map rec_path (map (build e p) (take k (zip items rs))) = take k items"
proof -
  have "rec_path \<circ> build e p = fst"
    by (rule ext) (simp add: split_paired_all)
  then have "map rec_path (map (build e p) (take k (zip items rs)))
             = map fst (take k (zip items rs))"
    by simp
  also have "\<dots> = take k items" using assms by (rule map_fst_take_zip)
  finally show ?thesis .
qed

lemma item_loop_paths:
  assumes "item_loop e results j items (p, w) = Inr (p', w')"
  shows "\<exists>k \<le> length items.
      map rec_path (records p') = map rec_path (records p) @ take k items
      \<and> processed_paths p' = processed_paths p \<union> set (take k items)
      \<and> (k < length items \<longrightarrow> stop_flag p')
      \<and> (stop_flag p \<longrightarrow> stop_flag p')
      \<and> same_config p p' \<and> same_files w w'"
proof -
  from item_loop_Inr [OF assms] obtain k where k: "k \<le> length items"
    and recs: "records p' = records p @ map (build e p) (take k (zip items (drop j results)))"
    and rest: "processed_paths p' = processed_paths p \<union> set (take k items)"
      "k \<le> length results - j" "k < length items \<longrightarrow> stop_flag p'"
      "stop_flag p \<longrightarrow> stop_flag p'" "same_config p p'" "same_files w w'"
    by blast
  from rest(2) have "map rec_path (map (build e p) (take k (zip items (drop j results)))) = take k items"
    by (intro map_rec_path_build) simp
  with recs have "map rec_path (records p') = map rec_path (records p) @ take k items" by simp
  with k rest show ?thesis by blast
qed

lemma classify_batch_aligned:
  assumes "\<forall>rs. call_many e p batch = Inr rs \<longrightarrow> length rs = length batch"
  shows "\<exists>results. classify_batch e p batch = Inr results \<and> length results = length batch"
  using assms by (cases "call_many e p batch") (auto simp: classify_batch_def)

lemma classify_batch_Inr: "\<exists>results. classify_batch e p batch = Inr results"
  by (cases "call_many e p batch") (auto simp: classify_batch_def)

lemma save_progress_ok:
  "disk e (saves w) = WriteOk \<Longrightarrow>
   save_progress e p w = Inr (w\<lparr>progress_file := Parsed (payload_of p), saves := Suc (saves w)\<rparr>)"
  by (simp add: save_progress_def)

lemma save_progress_Inr:
  "save_progress e p w = Inr w' \<Longrightarrow>
   submitted w' = submitted w \<and> excel_file w' = excel_file w \<and> polls w' = polls w
   \<and> saves w' = Suc (saves w)"
  by (auto simp: save_progress_def split: disk_outcome.splits)

lemma rec_path_record [simp]: "rec_path (record_from_path_and_result ex t q r) = q"
  by (simp add: record_from_path_and_result_def Let_def split: prod.splits)

lemma ledger_process_item:
  "ledger_ok p \<Longrightarrow> q \<notin> processed_paths p \<Longrightarrow> ledger_ok (process_item e p q r)"
  by (auto simp: ledger_ok_def process_item_def Let_def)

lemma ledger_card:
  "ledger_ok p \<Longrightarrow> card (processed_paths p) = length (records p)"
  unfolding ledger_ok_def using distinct_card [of "map rec_path (records p)"] by auto

lemma ledger_unique:
  assumes "ledger_ok p" "q \<in> processed_paths p"
  shows "\<exists>!i. i < length (records p) \<and> rec_path (records p ! i) = q"
proof -
  from assms have d: "distinct (map rec_path (records p))"
    and q: "q \<in> set (map rec_path (records p))" by (simp_all add: ledger_ok_def)
  from q obtain i where i: "i < length (records p)" "rec_path (records p ! i) = q"
    by (auto simp: in_set_conv_nth)
  show ?thesis
  proof (rule ex1I [of _ i])
    show "i < length (records p) \<and> rec_path (records p ! i) = q" using i by simp
  next
    fix j assume j: "j < length (records p) \<and> rec_path (records p ! j) = q"
    with i d show "j = i"
      using nth_eq_iff_index_eq [of "map rec_path (records p)" j i] by simp
  qed
qed

lemma ledger_extend:
  assumes "ledger_ok p"
    and "map rec_path (records p') = map rec_path (records p) @ xs"
    and "processed_paths p' = processed_paths p \<union> set xs"
    and "distinct xs" and "set xs \<inter> processed_paths p = {}"
  shows "ledger_ok p'"
  using assms by (auto simp: ledger_ok_def)

lemma run_batch_paths:
  assumes "run_batch e batch (p, w) = Inr (p', w')"
  shows "\<exists>k \<le> length batch.
      map rec_path (records p') = map rec_path (records p) @ take k batch
      \<and> processed_paths p' = processed_paths p \<union> set (take k batch)
      \<and> (k < length batch \<longrightarrow> stop_flag p')
      \<and> (stop_flag p \<longrightarrow> stop_flag p')
      \<and> same_config p p'
      \<and> submitted w' = submitted w @ [batch] \<and> excel_file w' = excel_file w"
proof -
  obtain results where cls: "classify_batch e p batch = Inr results"
    using classify_batch_Inr by blast
  let ?w0 = "w\<lparr>submitted := submitted w @ [batch]\<rparr>"
  from assms cls obtain p1 w1 where loop: "item_loop e results 0 batch (p, ?w0) = Inr (p1, w1)"
    and sv: "save_progress e p1 w1 = Inr w'" and p1: "p' = p1"
    by (auto simp: run_batch_def split: sum.splits)
  from item_loop_paths [OF loop] obtain k where k: "k \<le> length batch"
    and facts: "map rec_path (records p1) = map rec_path (records p) @ take k batch"
      "processed_paths p1 = processed_paths p \<union> set (take k batch)"
      "k < length batch \<longrightarrow> stop_flag p1" "stop_flag p \<longrightarrow> stop_flag p1"
      "same_config p p1" "same_files ?w0 w1"
    by blast
  from save_progress_Inr [OF sv] facts(6)
  have "submitted w' = submitted w @ [batch]" "excel_file w' = excel_file w"
    by (simp_all add: same_files_def)
  with k facts p1 show ?thesis by blast
qed

lemma batch_loop_paths:
  "batch_loop e all_paths bs i (p, w) = Inr (p', w') \<Longrightarrow>
   \<exists>n \<le> length all_paths - i.
      map rec_path (records p') = map rec_path (records p) @ take n (drop i all_paths)
      \<and> processed_paths p' = processed_paths p \<union> set (take n (drop i all_paths))
      \<and> (n < length all_paths - i \<and> 0 < bs \<longrightarrow> stop_flag p')
      \<and> (stop_flag p \<longrightarrow> stop_flag p' \<and> n = 0 \<and> submitted w' = submitted w)
      \<and> same_config p p' \<and> excel_file w' = excel_file w"
proof (induction e all_paths bs i "(p, w)" arbitrary: p w rule: batch_loop.induct)
  case (1 e all_paths bs i)
  show ?case
  proof (cases "bs = 0 \<or> length all_paths \<le> i")
    case True
    with "1.prems" have "p' = p" "w' = w" by (auto simp: batch_loop.simps)
    with True show ?thesis by (intro exI [of _ 0]) auto
  next
    case False
    obtain p1 w1 where poll: "poll_stop e (p, w) = (p1, w1)" by (cases "poll_stop e (p, w)")
    note pf = poll_stop_facts [OF poll]
    show ?thesis
    proof (cases "stop_flag p1")
      case True
      with "1.prems" False poll have "p' = p1" "w' = w1" by (auto simp: batch_loop.simps)
      with pf True False show ?thesis
        by (intro exI [of _ 0]) (auto simp: same_files_def)
    next
      case nostop: False
      let ?batch = "take bs (drop i all_paths)"
      from "1.prems" False poll nostop obtain p2 w2
        where rb: "run_batch e ?batch (p1, w1) = Inr (p2, w2)"
          and rest: "batch_loop e all_paths bs (i + bs) (p2, w2) = Inr (p', w')"
        by (auto simp: batch_loop.simps [of e all_paths bs i] split: sum.splits)
      from run_batch_paths [OF rb] obtain k where k: "k \<le> length ?batch"
        and b: "map rec_path (records p2) = map rec_path (records p1) @ take k ?batch"
          "processed_paths p2 = processed_paths p1 \<union> set (take k ?batch)"
          "k < length ?batch \<longrightarrow> stop_flag p2"
          "same_config p1 p2" "excel_file w2 = excel_file w1"
        by blast
      from "1.hyps" [OF False poll [symmetric] nostop rb rest]
      obtain m where m: "m \<le> length all_paths - (i + bs)"
        and r: "map rec_path (records p') = map rec_path (records p2) @ take m (drop (i + bs) all_paths)"
          "processed_paths p' = processed_paths p2 \<union> set (take m (drop (i + bs) all_paths))"
          "m < length all_paths - (i + bs) \<and> 0 < bs \<longrightarrow> stop_flag p'"
          "stop_flag p2 \<longrightarrow> stop_flag p' \<and> m = 0 \<and> submitted w' = submitted w2"
          "same_config p2 p'" "excel_file w' = excel_file w2"
        by blast
      have kbs: "k \<le> bs" and krem: "k \<le> length all_paths - i" using k by simp_all
      have mk: "m = 0 \<or> k = bs"
      proof (cases "k < length ?batch")
        case True
        with b(3) r(4) show ?thesis by simp
      next
        case False
        with k have "k = min bs (length all_paths - i)" by (auto simp: min_def)
        with m show ?thesis by (auto simp: min_def)
      qed
      have t1: "take k ?batch = take k (drop i all_paths)"
        using kbs by (simp add: min_def)
      have t2: "take m (drop (i + bs) all_paths) = take m (drop k (drop i all_paths))"
        using mk by (auto simp: add.commute)
      have tk: "take (k + m) (drop i all_paths)
                = take k (drop i all_paths) @ take m (drop k (drop i all_paths))"
        by (simp add: take_add)
      have recs: "map rec_path (records p')
                  = map rec_path (records p) @ take (k + m) (drop i all_paths)"
        using r(1) b(1) pf(1) t1 t2 tk by simp
      have proc: "processed_paths p'
                  = processed_paths p \<union> set (take (k + m) (drop i all_paths))"
        using r(2) b(2) pf(2) t1 t2 tk by (simp add: Un_assoc)
      have bound: "k + m \<le> length all_paths - i"
        using krem m mk by arith
      have cut: "k + m < length all_paths - i \<and> 0 < bs \<longrightarrow> stop_flag p'"
      proof (cases "k < length ?batch")
        case True
        with b(3) r(4) show ?thesis by simp
      next
        case False
        with k have "k = min bs (length all_paths - i)" by (auto simp: min_def)
        with r(3) m show ?thesis by (auto simp: min_def)
      qed
      have cfg: "same_config p p'"
        using same_config_trans [OF same_config_trans [OF pf(3) b(4)] r(5)] .
      have ex: "excel_file w' = excel_file w"
        using r(6) b(5) pf(4) by (simp add: same_files_def)
      have nost: "\<not> stop_flag p" using nostop pf(5) by simp
      from recs proc bound cut cfg ex nost show ?thesis
        by (intro exI [of _ "k + m"]) simp
    qed
  qed
qed

lemma run_batches_paths:
  assumes "run_batches e all_paths (p, w) = Inr (p', w')"
  shows "\<exists>n \<le> length all_paths.
      map rec_path (records p') = map rec_path (records p) @ take n all_paths
      \<and> processed_paths p' = processed_paths p \<union> set (take n all_paths)
      \<and> (n < length all_paths \<and> 0 < batch_size p \<longrightarrow> stop_flag p')
      \<and> (stop_flag p \<longrightarrow> stop_flag p' \<and> n = 0 \<and> submitted w' = submitted w)
      \<and> same_config p p' \<and> excel_file w' = excel_file w"
proof (cases "batch_size p < 0")
  case True
  with assms have "p' = p" "w' = w" by (auto simp: run_batches_def split: if_splits)
  with True show ?thesis by (intro exI [of _ 0]) simp
next
  case False
  with assms have "batch_loop e all_paths (nat (batch_size p)) 0 (p, w) = Inr (p', w')"
    and pos: "0 < batch_size p"
    by (auto simp: run_batches_def split: if_splits)
  from batch_loop_paths [OF this(1)] pos show ?thesis by auto
qed

lemma set_scan_files: "set (scan_files ex d files) \<subseteq> set (map (path_join d) files) - ex"
  by (induction files) (auto simp: Let_def)

lemma distinct_scan_files:
  "distinct (map (path_join d) files) \<Longrightarrow> distinct (scan_files ex d files)"
proof (induction files)
  case Nil
  then show ?case by simp
next
  case (Cons f files)
  from set_scan_files [of ex d files] Cons.prems
  have "path_join d f \<notin> set (scan_files ex d files)" by auto
  with Cons show ?case by (simp add: Let_def)
qed

lemma distinct_scan_walk:
  "distinct (concat (map (\<lambda>(d, files). map (path_join d) files) walk)) \<Longrightarrow>
   distinct (concat (map (\<lambda>(d, files). scan_files ex d files) walk))"
proof (induction walk)
  case Nil
  then show ?case by simp
next
  case (Cons x walk)
  obtain d files where x: "x = (d, files)" by (cases x)
  have sub: "set (concat (map (\<lambda>(d, files). scan_files ex d files) walk))
             \<subseteq> set (concat (map (\<lambda>(d, files). map (path_join d) files) walk))"
    using set_scan_files by fastforce
  from Cons.prems x have d1: "distinct (map (path_join d) files)"
    and d2: "distinct (concat (map (\<lambda>(d, files). map (path_join d) files) walk))"
    and dj: "set (map (path_join d) files)
             \<inter> set (concat (map (\<lambda>(d, files). map (path_join d) files) walk)) = {}"
    by simp_all
  from dj sub set_scan_files [of ex d files]
  have "set (scan_files ex d files)
        \<inter> set (concat (map (\<lambda>(d, files). scan_files ex d files) walk)) = {}"
    by blast
  with Cons.IH [OF d2] distinct_scan_files [OF d1] x show ?case by simp
qed

lemma scan_all_images_distinct:
  assumes "scan_all_images e p = Inr paths" "root_folder p = Some r" "distinct (walk_paths e r)"
  shows "distinct paths \<and> set paths \<inter> processed_paths p = {}"
proof -
  from assms(1,2) have paths:
    "paths = concat (map (\<lambda>(d, files). scan_files (processed_paths p) d files) (os_walk e r))"
    by (simp add: scan_all_images_def)
  have "set paths \<inter> processed_paths p = {}"
    unfolding paths using set_scan_files by fastforce
  moreover have "distinct paths"
    unfolding paths using assms(3) unfolding walk_paths_def by (rule distinct_scan_walk)
  ultimately show ?thesis by simp
qed



lemma ledger_run_batches:
  assumes "run_batches e all_paths (p, w) = Inr (p', w')" "ledger_ok p"
    "distinct all_paths" "set all_paths \<inter> processed_paths p = {}"
  shows "ledger_ok p'"
proof -
  from run_batches_paths [OF assms(1)] obtain n
    where n: "map rec_path (records p') = map rec_path (records p) @ take n all_paths"
      "processed_paths p' = processed_paths p \<union> set (take n all_paths)"
    by blast
  have d: "distinct (take n all_paths)" using assms(3) by simp
  have "set (take n all_paths) \<subseteq> set all_paths" by (rule set_take_subset)
  with assms(4) have j: "set (take n all_paths) \<inter> processed_paths p = {}" by blast
  from assms(2) n d j show ?thesis by (rule ledger_extend)
qed

lemma load_model_facts:
  "load_model e p = Inr p1 \<Longrightarrow>
   records p1 = records p \<and> processed_paths p1 = processed_paths p
   \<and> stop_flag p1 = stop_flag p \<and> root_folder p1 = root_folder p
   \<and> batch_size p1 = batch_size p \<and> conf_threshold p1 = conf_threshold p
   \<and> classifier_loaded p1"
  by (cases "model_loads e") (auto simp: load_model_def)

lemma process_new_cases:
  assumes "process_new e p w = Inr (out, p', w')"
  shows "(\<exists>x. load_model e (reset_state p) = Inl x \<and> out = ModelErrorShown
              \<and> p' = reset_state p \<and> w' = w)
       \<or> (\<exists>p1. load_model e (reset_state p) = Inr p1 \<and> scan_all_images e p1 = Inr []
              \<and> out = NoImages \<and> p' = p1 \<and> w' = w)
       \<or> (\<exists>p1 all_paths w2. load_model e (reset_state p) = Inr p1
              \<and> scan_all_images e p1 = Inr all_paths \<and> all_paths \<noteq> []
              \<and> run_batches e all_paths (p1, w) = Inr (p', w2)
              \<and> finalize_processing e p' w2 = Inr w' \<and> out = Finished)"
proof (cases "load_model e (reset_state p)")
  case (Inl x)
  with assms show ?thesis by (simp add: process_new_def)
next
  case lm: (Inr p1)
  show ?thesis
  proof (cases "scan_all_images e p1")
    case (Inl x)
    with assms lm show ?thesis by (simp add: process_new_def)
  next
    case sc: (Inr all_paths)
    show ?thesis
    proof (cases "all_paths = []")
      case True
      with assms lm sc show ?thesis by (simp add: process_new_def)
    next
      case ne: False
      show ?thesis
      proof (cases "run_batches e all_paths (p1, w)")
        case (Inl x)
        with assms lm sc ne show ?thesis by (simp add: process_new_def)
      next
        case (Inr pw2)
        obtain p2 w2 where pw2: "pw2 = (p2, w2)" by (cases pw2)
        show ?thesis
        proof (cases "finalize_processing e p2 w2")
          case (Inl x)
          with assms lm sc ne Inr pw2 show ?thesis by (simp add: process_new_def)
        next
          case fin: (Inr w3)
          with assms lm sc ne Inr pw2 show ?thesis by (simp add: process_new_def)
        qed
      qed
    qed
  qed
qed

lemma ledger_process_new:
  assumes run: "process_new e p w = Inr (out, p', w')"
    and walk: "\<forall>r. root_folder p = Some r \<longrightarrow> distinct (walk_paths e r)"
  shows "ledger_ok p'"
proof -
  let ?p0 = "reset_state p"
  have l0: "ledger_ok ?p0" by (simp add: ledger_ok_def reset_state_def)
  have l1: "ledger_ok p1" "processed_paths p1 = {}" "root_folder p1 = root_folder p"
    if "load_model e ?p0 = Inr p1" for p1
    using load_model_facts [OF that] by (simp_all add: ledger_ok_def reset_state_def)
  from process_new_cases [OF run] show ?thesis
  proof (elim disjE exE conjE)
    fix x assume "p' = ?p0"
    with l0 show ?thesis by simp
  next
    fix p1 assume "load_model e ?p0 = Inr p1" "p' = p1"
    with l1(1) show ?thesis by simp
  next
    fix p1 all_paths w2
    assume lm: "load_model e ?p0 = Inr p1" and sc: "scan_all_images e p1 = Inr all_paths"
      and rb: "run_batches e all_paths (p1, w) = Inr (p', w2)"
    from sc obtain r where r: "root_folder p1 = Some r"
      by (cases "root_folder p1") (simp_all add: scan_all_images_def)
    with l1(3) [OF lm] walk have "distinct (walk_paths e r)" by simp
    from scan_all_images_distinct [OF sc r this]
    have dist: "distinct all_paths" "set all_paths \<inter> processed_paths p1 = {}" by simp_all
    from rb l1(1) [OF lm] dist show ?thesis by (rule ledger_run_batches)
  qed
qed

lemma load_progress_flags:
  assumes "load_progress p w = (lr, p0)"
  shows "stop_flag p0 = stop_flag p" "classifier_loaded p0 = classifier_loaded p"
proof -
  have "stop_flag (snd (load_progress p w)) = stop_flag p
        \<and> classifier_loaded (snd (load_progress p w)) = classifier_loaded p"
    by (simp add: load_progress_def Let_def split: file_state.splits jfield.splits)
  with assms show "stop_flag p0 = stop_flag p" "classifier_loaded p0 = classifier_loaded p"
    by simp_all
qed

lemma load_progress_payload:
  "progress_file w = Parsed (payload_of ps) \<Longrightarrow>
   load_progress p w =
     (Loaded, p\<lparr>root_folder := root_folder ps, batch_size := batch_size ps,
                conf_threshold := conf_threshold ps, records := records ps,
                processed_paths := processed_paths ps\<rparr>)"
  by (simp add: load_progress_def payload_of_def Let_def)

lemma ready_facts:
  assumes "(if classifier_loaded p0 then Inr p0 else load_model e p0) = Inr p1"
  shows "records p1 = records p0" "processed_paths p1 = processed_paths p0"
    "stop_flag p1 = stop_flag p0" "root_folder p1 = root_folder p0"
    "batch_size p1 = batch_size p0" "conf_threshold p1 = conf_threshold p0"
    "classifier_loaded p1"
proof -
  have "p1 = p0 \<and> classifier_loaded p0 \<or> load_model e p0 = Inr p1"
    using assms by (cases "classifier_loaded p0") simp_all
  then show "records p1 = records p0" "processed_paths p1 = processed_paths p0"
    "stop_flag p1 = stop_flag p0" "root_folder p1 = root_folder p0"
    "batch_size p1 = batch_size p0" "conf_threshold p1 = conf_threshold p0"
    "classifier_loaded p1"
    using load_model_facts [of e p0 p1] by auto
qed

lemma process_resume_cases:
  assumes "process_resume e p w = Inr (out, p', w')"
  shows "(\<exists>lr. load_progress p w = (lr, p') \<and> lr \<noteq> Loaded \<and> out = NotResumed \<and> w' = w)
       \<or> (load_progress p w = (Loaded, p') \<and> \<not> classifier_loaded p'
            \<and> (\<exists>x. load_model e p' = Inl x) \<and> out = ModelErrorShown \<and> w' = w)
       \<or> (\<exists>p0 remaining. load_progress p w = (Loaded, p0)
            \<and> (if classifier_loaded p0 then Inr p0 else load_model e p0) = Inr p'
            \<and> scan_all_images e p' = Inr remaining
            \<and> length remaining + card (processed_paths p') = 0
            \<and> out = NothingToProcess \<and> w' = w)
       \<or> (\<exists>p0 p1 remaining w2. load_progress p w = (Loaded, p0)
            \<and> (if classifier_loaded p0 then Inr p0 else load_model e p0) = Inr p1
            \<and> scan_all_images e p1 = Inr remaining
            \<and> length remaining + card (processed_paths p1) \<noteq> 0
            \<and> run_batches e remaining (p1, w) = Inr (p', w2)
            \<and> finalize_processing e p' w2 = Inr w' \<and> out = Finished)"
proof -
  obtain lr p0 where ld: "load_progress p w = (lr, p0)" by (cases "load_progress p w")
  show ?thesis
  proof (cases "lr = Loaded")
    case False
    with assms ld show ?thesis by (simp add: process_resume_def)
  next
    case loaded: True
    show ?thesis
    proof (cases "if classifier_loaded p0 then Inr p0 else load_model e p0")
      case (Inl x)
      then have "\<not> classifier_loaded p0" "load_model e p0 = Inl x"
        by (simp_all split: if_splits)
      with assms ld loaded Inl show ?thesis by (simp add: process_resume_def)
    next
      case rd: (Inr p1)
      show ?thesis
      proof (cases "scan_all_images e p1")
        case (Inl x)
        with assms ld loaded rd show ?thesis by (simp add: process_resume_def)
      next
        case sc: (Inr remaining)
        show ?thesis
        proof (cases "length remaining + card (processed_paths p1) = 0")
          case True
          with assms ld loaded rd sc show ?thesis by (simp add: process_resume_def Let_def split: if_splits)
        next
          case tot: False
          show ?thesis
          proof (cases "run_batches e remaining (p1, w)")
            case (Inl x)
            with assms ld loaded rd sc tot show ?thesis
              by (simp add: process_resume_def Let_def split: if_splits)
          next
            case (Inr pw2)
            obtain p2 w2 where pw2: "pw2 = (p2, w2)" by (cases pw2)
            show ?thesis
            proof (cases "finalize_processing e p2 w2")
              case (Inl x)
              with assms ld loaded rd sc tot Inr pw2 show ?thesis
                by (simp add: process_resume_def Let_def split: if_splits)
            next
              case fin: (Inr w3)
              with assms ld loaded rd sc tot Inr pw2 show ?thesis
                by (simp add: process_resume_def Let_def split: if_splits)
            qed
          qed
        qed
      qed
    qed
  qed
qed


lemma ledger_process_resume:
  assumes run: "process_resume e p w = Inr (out, p', w')"
    and cp: "progress_file w = Parsed (payload_of ps)"
    and ok: "ledger_ok ps"
    and walk: "\<forall>r. root_folder ps = Some r \<longrightarrow> distinct (walk_paths e r)"
  shows "ledger_ok p'"
proof -
  define q0 where
    "q0 = p\<lparr>root_folder := root_folder ps, batch_size := batch_size ps,
             conf_threshold := conf_threshold ps, records := records ps,
             processed_paths := processed_paths ps\<rparr>"
  have ld: "load_progress p w = (Loaded, q0)"
    unfolding q0_def using cp by (rule load_progress_payload)
  have l0: "ledger_ok q0" using ok by (simp add: ledger_ok_def q0_def)
  have r0: "root_folder q0 = root_folder ps" by (simp add: q0_def)
  have l1: "ledger_ok p1" "root_folder p1 = root_folder ps"
    if "(if classifier_loaded q0 then Inr q0 else load_model e q0) = Inr p1" for p1
    using ready_facts [OF that] l0 r0 by (simp_all add: ledger_ok_def)
  from process_resume_cases [OF run] show ?thesis
  proof (elim disjE exE conjE)
    fix lr assume "load_progress p w = (lr, p')" "lr \<noteq> Loaded"
    with ld show ?thesis by simp
  next
    assume "load_progress p w = (Loaded, p')"
    with ld l0 show ?thesis by simp
  next
    fix p0 remaining
    assume "load_progress p w = (Loaded, p0)"
      and rd: "(if classifier_loaded p0 then Inr p0 else load_model e p0) = Inr p'"
    with ld have eq: "p0 = q0" by simp
    from l1(1) [OF rd [unfolded eq]] show ?thesis .
  next
    fix p0 p1 remaining w2
    assume "load_progress p w = (Loaded, p0)"
      and rd0: "(if classifier_loaded p0 then Inr p0 else load_model e p0) = Inr p1"
      and sc: "scan_all_images e p1 = Inr remaining"
      and rb: "run_batches e remaining (p1, w) = Inr (p', w2)"
    with ld have eq: "p0 = q0" by simp
    note rd = rd0 [unfolded eq]
    from sc obtain r where r: "root_folder p1 = Some r"
      by (cases "root_folder p1") (simp_all add: scan_all_images_def)
    with l1(2) [OF rd] walk have "distinct (walk_paths e r)" by simp
    from scan_all_images_distinct [OF sc r this]
    have dist: "distinct remaining" "set remaining \<inter> processed_paths p1 = {}" by simp_all
    from rb l1(1) [OF rd] dist show ?thesis by (rule ledger_run_batches)
  qed
qed

lemma ledger_index:
  "ledger_ok p \<Longrightarrow> i < length (records p) \<Longrightarrow> rec_path (records p ! i) \<in> processed_paths p"
  unfolding ledger_ok_def by (metis length_map nth_map nth_mem)

lemma run_batch_returns:
  assumes "env_ok e"
  shows "\<exists>p' w'. run_batch e batch (p, w) = Inr (p', w')"
proof -
  from assms have "\<forall>rs. call_many e p batch = Inr rs \<longrightarrow> length rs = length batch"
    by (simp add: env_ok_def call_many_def)
  from classify_batch_aligned [OF this] obtain results
    where cls: "classify_batch e p batch = Inr results" and len: "length results = length batch"
    by blast
  let ?w0 = "w\<lparr>submitted := submitted w @ [batch]\<rparr>"
  from len have "0 + length batch \<le> length results" by simp
  from item_loop_returns [OF this] obtain p1 w1
    where loop: "item_loop e results 0 batch (p, ?w0) = Inr (p1, w1)" by blast
  from assms have "disk e (saves w1) \<noteq> MkdirFails" by (simp add: env_ok_def)
  from save_progress_no_raise [OF this] obtain w2 where "save_progress e p1 w1 = Inr w2"
    by blast
  with cls loop show ?thesis by (simp add: run_batch_def)
qed

lemma batch_loop_returns:
  "env_ok e \<Longrightarrow> \<exists>p' w'. batch_loop e all_paths bs i pw = Inr (p', w')"
proof (induction e all_paths bs i pw rule: batch_loop.induct)
  case (1 e all_paths bs i pw)
  show ?case
  proof (cases "bs = 0 \<or> length all_paths \<le> i")
    case True
    then show ?thesis by (cases pw) (simp add: batch_loop.simps)
  next
    case False
    obtain p1 w1 where poll: "poll_stop e pw = (p1, w1)" by (cases "poll_stop e pw")
    show ?thesis
    proof (cases "stop_flag p1")
      case True
      with False poll show ?thesis by (simp add: batch_loop.simps [of e all_paths bs i])
    next
      case nostop: False
      from run_batch_returns [OF "1.prems"] obtain p2 w2
        where rb: "run_batch e (take bs (drop i all_paths)) (p1, w1) = Inr (p2, w2)" by blast
      from "1.IH" [OF False poll [symmetric] nostop rb "1.prems"]
      obtain p' w' where "batch_loop e all_paths bs (i + bs) (p2, w2) = Inr (p', w')" by blast
      with False poll nostop rb show ?thesis
        by (simp add: batch_loop.simps [of e all_paths bs i])
    qed
  qed
qed

lemma run_batches_returns:
  "env_ok e \<Longrightarrow> batch_size p \<noteq> 0 \<Longrightarrow> \<exists>p' w'. run_batches e all_paths (p, w) = Inr (p', w')"
  using batch_loop_returns [of e all_paths "nat (batch_size p)" 0 "(p, w)"]
  by (simp add: run_batches_def)

lemma finalize_returns:
  assumes "env_ok e"
  shows "\<exists>w'. finalize_processing e p w = Inr w'"
proof -
  let ?w1 = "w\<lparr>excel_file := Some (map export_row_of (records p))\<rparr>"
  from assms have "disk e (saves ?w1) \<noteq> MkdirFails" by (simp add: env_ok_def)
  from save_progress_no_raise [OF this] obtain w' where "save_progress e p ?w1 = Inr w'"
    by blast
  with assms show ?thesis by (simp add: finalize_processing_def env_ok_def)
qed

lemma finalize_facts:
  assumes "finalize_processing e p w = Inr w'"
  shows "excel_file w' = Some (map export_row_of (records p))" "submitted w' = submitted w"
    "disk e (saves w) = WriteOk \<longrightarrow> progress_file w' = Parsed (payload_of p)"
proof -
  let ?w1 = "w\<lparr>excel_file := Some (map export_row_of (records p))\<rparr>"
  from assms have sv: "save_progress e p ?w1 = Inr w'"
    by (simp add: finalize_processing_def split: if_splits)
  from save_progress_Inr [OF sv]
  show "excel_file w' = Some (map export_row_of (records p))" "submitted w' = submitted w"
    by simp_all
  show "disk e (saves w) = WriteOk \<longrightarrow> progress_file w' = Parsed (payload_of p)"
    using sv by (auto simp: save_progress_def)
qed

lemma process_new_returns:
  assumes "env_ok e" "root_folder p \<noteq> None" "batch_size p \<noteq> 0"
  shows "\<exists>out p' w'. process_new e p w = Inr (out, p', w')"
proof (cases "load_model e (reset_state p)")
  case (Inl x)
  then show ?thesis by (simp add: process_new_def)
next
  case lm: (Inr p1)
  note f = load_model_facts [OF lm]
  from f assms(2) obtain all_paths where sc: "scan_all_images e p1 = Inr all_paths"
    by (auto simp: scan_all_images_def reset_state_def)
  show ?thesis
  proof (cases "all_paths = []")
    case True
    with lm sc show ?thesis by (simp add: process_new_def)
  next
    case False
    from f assms(3) have "batch_size p1 \<noteq> 0" by (simp add: reset_state_def)
    from run_batches_returns [OF assms(1) this] obtain p2 w2
      where rb: "run_batches e all_paths (p1, w) = Inr (p2, w2)" by blast
    from finalize_returns [OF assms(1)] obtain w3
      where "finalize_processing e p2 w2 = Inr w3" by blast
    with lm sc False rb show ?thesis by (simp add: process_new_def)
  qed
qed

lemma batch_loop_stopped:
  assumes "stop_flag p"
  shows "\<exists>p' w'. batch_loop e all_paths bs i (p, w) = Inr (p', w')
           \<and> records p' = records p \<and> processed_paths p' = processed_paths p
           \<and> stop_flag p' \<and> same_config p p' \<and> same_files w w'"
proof (cases "bs = 0 \<or> length all_paths \<le> i")
  case True
  with assms show ?thesis by (simp add: batch_loop.simps)
next
  case False
  obtain p1 w1 where poll: "poll_stop e (p, w) = (p1, w1)" by (cases "poll_stop e (p, w)")
  note pf = poll_stop_facts [OF poll]
  from pf(5) assms have "stop_flag p1" by simp
  with False poll have "batch_loop e all_paths bs i (p, w) = Inr (p1, w1)"
    by (simp add: batch_loop.simps [of e all_paths bs i])
  with pf \<open>stop_flag p1\<close> show ?thesis by simp
qed

lemma run_batches_stopped:
  assumes "stop_flag p" "batch_size p \<noteq> 0"
  shows "\<exists>p' w'. run_batches e all_paths (p, w) = Inr (p', w')
           \<and> records p' = records p \<and> processed_paths p' = processed_paths p
           \<and> stop_flag p' \<and> same_config p p' \<and> same_files w w'"
proof (cases "batch_size p < 0")
  case True
  with assms show ?thesis by (simp add: run_batches_def)
next
  case False
  with assms(2) have "run_batches e all_paths (p, w)
                      = batch_loop e all_paths (nat (batch_size p)) 0 (p, w)"
    by (simp add: run_batches_def)
  with batch_loop_stopped [OF assms(1)] show ?thesis by simp
qed

lemma scan_all_images_cong:
  "root_folder p1 = root_folder p0 \<Longrightarrow> processed_paths p1 = processed_paths p0 \<Longrightarrow>
   scan_all_images e p1 = scan_all_images e p0"
  by (simp add: scan_all_images_def split: option.splits)

lemma payload_of_cong:
  "same_config p p' \<Longrightarrow> records p' = records p \<Longrightarrow> processed_paths p' = processed_paths p \<Longrightarrow>
   payload_of p' = payload_of p"
  by (simp add: payload_of_def same_config_def)

text \<open>Without a press of Stop the loops leave the flag as it is.\<close>

lemma item_loop_flag:
  "\<forall>n. \<not> stop_pressed e n \<Longrightarrow> item_loop e results j items (p, w) = Inr (p', w') \<Longrightarrow>
   stop_flag p' = stop_flag p"
proof (induction items arbitrary: j p w)
  case Nil
  then show ?case by simp
next
  case (Cons q rest)
  obtain p1 w1 where poll: "poll_stop e (p, w) = (p1, w1)" by (cases "poll_stop e (p, w)")
  from poll_stop_facts(5) [OF poll] Cons.prems(1) have f: "stop_flag p1 = stop_flag p" by simp
  show ?case
  proof (cases "stop_flag p1")
    case True
    with Cons.prems(2) poll f show ?thesis by simp
  next
    case False
    with Cons.prems(2) poll
    have "item_loop e results (Suc j) rest (process_item e p1 q (results ! j), w1) = Inr (p', w')"
      by (simp split: if_splits)
    from Cons.IH [OF Cons.prems(1) this] f show ?thesis by (simp add: process_item_facts)
  qed
qed

lemma run_batch_flag:
  assumes "\<forall>n. \<not> stop_pressed e n" "run_batch e batch (p, w) = Inr (p', w')"
  shows "stop_flag p' = stop_flag p"
proof -
  obtain results where cls: "classify_batch e p batch = Inr results"
    using classify_batch_Inr by blast
  with assms(2) obtain w1
    where "item_loop e results 0 batch (p, w\<lparr>submitted := submitted w @ [batch]\<rparr>) = Inr (p', w1)"
    by (auto simp: run_batch_def split: sum.splits)
  from item_loop_flag [OF assms(1) this] show ?thesis .
qed

lemma batch_loop_flag:
  "\<forall>n. \<not> stop_pressed e n \<Longrightarrow> batch_loop e all_paths bs i (p, w) = Inr (p', w') \<Longrightarrow>
   stop_flag p' = stop_flag p"
proof (induction e all_paths bs i "(p, w)" arbitrary: p w rule: batch_loop.induct)
  case (1 e all_paths bs i)
  show ?case
  proof (cases "bs = 0 \<or> length all_paths \<le> i")
    case True
    with "1.prems"(2) show ?thesis by (simp add: batch_loop.simps)
  next
    case False
    obtain p1 w1 where poll: "poll_stop e (p, w) = (p1, w1)" by (cases "poll_stop e (p, w)")
    from poll_stop_facts(5) [OF poll] "1.prems"(1) have f: "stop_flag p1 = stop_flag p" by simp
    show ?thesis
    proof (cases "stop_flag p1")
      case True
      with "1.prems"(2) False poll f show ?thesis
        by (simp add: batch_loop.simps [of e all_paths bs i])
    next
      case nostop: False
      from "1.prems"(2) False poll nostop obtain p2 w2
        where rb: "run_batch e (take bs (drop i all_paths)) (p1, w1) = Inr (p2, w2)"
          and rest: "batch_loop e all_paths bs (i + bs) (p2, w2) = Inr (p', w')"
        by (auto simp: batch_loop.simps [of e all_paths bs i] split: sum.splits)
      from "1.hyps" [OF False poll [symmetric] nostop rb "1.prems"(1) rest]
        run_batch_flag [OF "1.prems"(1) rb] f
      show ?thesis by simp
    qed
  qed
qed

lemma run_batches_flag:
  assumes "\<forall>n. \<not> stop_pressed e n" "run_batches e all_paths (p, w) = Inr (p', w')"
  shows "stop_flag p' = stop_flag p"
proof (cases "batch_size p < 0")
  case True
  with assms(2) show ?thesis by (simp add: run_batches_def split: if_splits)
next
  case False
  with assms(2) have "batch_loop e all_paths (nat (batch_size p)) 0 (p, w) = Inr (p', w')"
    by (simp add: run_batches_def split: if_splits)
  from batch_loop_flag [OF assms(1) this] show ?thesis .
qed

lemma process_new_flag:
  assumes "process_new e p w = Inr (out, p', w')" "\<forall>n. \<not> stop_pressed e n"
  shows "\<not> stop_flag p'"
proof -
  have r: "\<not> stop_flag (reset_state p)" by (simp add: reset_state_def)
  from process_new_cases [OF assms(1)] show ?thesis
  proof (elim disjE exE conjE)
    assume "p' = reset_state p"
    with r show ?thesis by simp
  next
    fix p1 assume "load_model e (reset_state p) = Inr p1" "p' = p1"
    with load_model_facts [of e "reset_state p" p1] r show ?thesis by simp
  next
    fix p1 all_paths w2
    assume lm: "load_model e (reset_state p) = Inr p1"
      and rb: "run_batches e all_paths (p1, w) = Inr (p', w2)"
    from run_batches_flag [OF assms(2) rb] load_model_facts [OF lm] r show ?thesis by simp
  qed
qed

section \<open>The checkpoint after a batch\<close>

text \<open>The inner loop keeps exactly the items whose poll found the flag clear: it stops
  at the first item \<open>k\<close> whose poll finds the flag set, by an earlier Stop or by one
  pressed since the last poll, and has then appended the records of the \<open>k\<close> items
  before it.\<close>

lemma item_loop_pinned:
  "item_loop e results j items (p, w) = Inr (p', w') \<Longrightarrow>
   \<exists>k \<le> length items.
      records p' = records p @ map (build e p) (take k (zip items (drop j results)))
      \<and> processed_paths p' = processed_paths p \<union> set (take k items)
      \<and> (\<forall>i < k. \<not> stop_flag p \<and> \<not> stop_pressed e (polls w + i))
      \<and> (k < length items \<longrightarrow> stop_flag p \<or> stop_pressed e (polls w + k))
      \<and> (k < length items \<longrightarrow> stop_flag p')
      \<and> same_files w w'"
proof (induction items arbitrary: j p w)
  case Nil
  then show ?case by simp
next
  case (Cons q rest)
  obtain p1 w1 where poll: "poll_stop e (p, w) = (p1, w1)" by (cases "poll_stop e (p, w)")
  note pf = poll_stop_facts [OF poll]
  show ?case
  proof (cases "stop_flag p1")
    case True
    with Cons.prems poll have "p' = p1" "w' = w1" by simp_all
    with pf True show ?thesis by (intro exI [of _ 0]) simp
  next
    case False
    with Cons.prems poll have j: "j < length results"
      and rec: "item_loop e results (Suc j) rest (process_item e p1 q (results ! j), w1) = Inr (p', w')"
      by (simp_all split: if_splits)
    let ?p2 = "process_item e p1 q (results ! j)"
    from Cons.IH [OF rec] obtain k where k: "k \<le> length rest"
      and recs: "records p' = records ?p2 @ map (build e ?p2) (take k (zip rest (drop (Suc j) results)))"
      and proc: "processed_paths p' = processed_paths ?p2 \<union> set (take k rest)"
      and before: "\<forall>i < k. \<not> stop_flag ?p2 \<and> \<not> stop_pressed e (polls w1 + i)"
      and at: "k < length rest \<longrightarrow> stop_flag ?p2 \<or> stop_pressed e (polls w1 + k)"
      and cut: "k < length rest \<longrightarrow> stop_flag p'"
      and fl: "same_files w1 w'"
      by blast
    have f2: "\<not> stop_flag ?p2" using False by (simp add: process_item_facts)
    have f0: "\<not> stop_flag p" "\<not> stop_pressed e (polls w)" using False pf(5) by simp_all
    have cfg2: "same_config p ?p2"
      using pf(3) process_item_facts(3) [of p1 e q "results ! j"] by (rule same_config_trans)
    have b2: "build e ?p2 = build e p" using cfg2 by (rule build_same_config)
    have b1: "build e p1 = build e p" using pf(3) by (rule build_same_config)
    have dr: "drop j results = results ! j # drop (Suc j) results"
      using j by (simp add: Cons_nth_drop_Suc)
    have r: "records p' = records p @ map (build e p) (take (Suc k) (zip (q # rest) (drop j results)))"
      using recs pf(1) by (simp add: process_item_facts b2 b1 dr)
    have s: "processed_paths p' = processed_paths p \<union> set (take (Suc k) (q # rest))"
      using proc pf(2) by (simp add: process_item_facts)
    have bf: "\<forall>i < Suc k. \<not> stop_flag p \<and> \<not> stop_pressed e (polls w + i)"
    proof (intro allI impI)
      fix i assume i: "i < Suc k"
      show "\<not> stop_flag p \<and> \<not> stop_pressed e (polls w + i)"
      proof (cases i)
        case 0
        with f0 show ?thesis by simp
      next
        case (Suc i')
        with i before pf(6) f0 show ?thesis by simp
      qed
    qed
    have a: "Suc k < length (q # rest) \<longrightarrow> stop_flag p \<or> stop_pressed e (polls w + Suc k)"
      using at f2 pf(6) by simp
    have c: "Suc k < length (q # rest) \<longrightarrow> stop_flag p'" using cut by simp
    have sf: "same_files w w'" using pf(4) fl by (rule same_files_trans)
    from k r s bf a c sf show ?thesis
      by (intro exI [of _ "Suc k"]) simp
  qed
qed

text \<open>
  C2. One iteration of the batch loop (\<open>run_batch\<close>, the body that \<open>batch_loop\<close> runs for
  every batch, in \<open>process_new\<close> and in \<open>process_resume\<close> alike), when the pipeline
  returns one item per path of the batch and the checkpoint file can be written. The
  iteration returns. Let \<open>k\<close> be the number of items processed before the flag was
  observed: the flag was clear on entry and Stop was not pressed before the polls of the
  first \<open>k\<close> items, and, when \<open>k\<close> is smaller than the batch, the poll of item \<open>k\<close>
  found the flag set. The iteration has appended exactly the records of the first \<open>k\<close>
  paths of the batch, in order, and added those paths to the processed set; and the
  checkpoint file then holds the payload of the processor's state, with all its records
  and processed paths, those of a batch cut short included.
\<close>

theorem checkpoint_after_batch:
  assumes contract: "\<forall>rs. call_many e p batch = Inr rs \<longrightarrow> length rs = length batch"
    and disk: "disk e (saves w) = WriteOk"
  shows "\<exists>p' w' results k.
      run_batch e batch (p, w) = Inr (p', w')
      \<and> classify_batch e p batch = Inr results
      \<and> k \<le> length batch
      \<and> (\<forall>i < k. \<not> stop_flag p \<and> \<not> stop_pressed e (polls w + i))
      \<and> (k < length batch \<longrightarrow> stop_flag p \<or> stop_pressed e (polls w + k))
      \<and> records p' = records p
           @ map (\<lambda>(q, r). record_from_path_and_result (exif_of e) (conf_threshold p) q r)
               (take k (zip batch results))
      \<and> processed_paths p' = processed_paths p \<union> set (take k batch)
      \<and> (k < length batch \<longrightarrow> stop_flag p')
      \<and> progress_file w' = Parsed (payload_of p')
      \<and> cp_records (payload_of p') = Some (records p')
      \<and> cp_processed_paths (payload_of p') = Good (processed_paths p')"
proof -
  from classify_batch_aligned [OF contract] obtain results
    where cls: "classify_batch e p batch = Inr results" and len: "length results = length batch"
    by blast
  let ?w0 = "w\<lparr>submitted := submitted w @ [batch]\<rparr>"
  from len have "0 + length batch \<le> length results" by simp
  from item_loop_returns [OF this] obtain p1 w1
    where loop: "item_loop e results 0 batch (p, ?w0) = Inr (p1, w1)" by blast
  from item_loop_pinned [OF loop] obtain k where k: "k \<le> length batch"
    and recs: "records p1 = records p @ map (build e p) (take k (zip batch results))"
    and proc: "processed_paths p1 = processed_paths p \<union> set (take k batch)"
    and before: "\<forall>i < k. \<not> stop_flag p \<and> \<not> stop_pressed e (polls w + i)"
    and at: "k < length batch \<longrightarrow> stop_flag p \<or> stop_pressed e (polls w + k)"
    and cut: "k < length batch \<longrightarrow> stop_flag p1"
    and fl: "same_files ?w0 w1"
    by auto
  from fl have "saves w1 = saves w" by (simp add: same_files_def)
  with disk have "disk e (saves w1) = WriteOk" by simp
  from save_progress_ok [OF this]
  have run: "run_batch e batch (p, w)
      = Inr (p1, w1\<lparr>progress_file := Parsed (payload_of p1), saves := Suc (saves w1)\<rparr>)"
    by (simp add: run_batch_def cls loop)
  let ?w2 = "w1\<lparr>progress_file := Parsed (payload_of p1), saves := Suc (saves w1)\<rparr>"
  from run cls k recs proc before at cut show ?thesis
    by (intro exI [of _ p1] exI [of _ ?w2] exI [of _ results] exI [of _ k])
       (simp add: build_def payload_of_def)
qed

text \<open>A batch of two images with Stop pressed after the first: the record of the first
  image is kept, and the checkpoint holds it.\<close>

lemma mid_stop_run:
  "(case run_batch mid_stop_env [''a'', ''b''] (ready_proc, demo_world) of
      Inl x \<Rightarrow> False
    | Inr (p', w') \<Rightarrow> map rec_path (records p') = [''a''] \<and> stop_flag p')"
  by (simp add: run_batch_def classify_batch_def call_many_def mid_stop_env_def demo_env_def
      ready_proc_def demo_proc_def set_params_def init_processor_def demo_world_def
      poll_stop_def stop_def process_item_def save_progress_def)

theorem checkpoint_after_batch_witness:
  "\<exists>p' w'. run_batch mid_stop_env [''a'', ''b''] (ready_proc, demo_world) = Inr (p', w')
     \<and> records p'
         = [record_from_path_and_result (exif_of mid_stop_env) (conf_threshold ready_proc) ''a'' fox]
     \<and> map rec_path (records p') = [''a''] \<and> stop_flag p'
     \<and> progress_file w' = Parsed (payload_of p')
     \<and> cp_records (payload_of p') = Some (records p')"
proof -
  have contract: "\<forall>rs. call_many mid_stop_env ready_proc [''a'', ''b''] = Inr rs
                    \<longrightarrow> length rs = length [''a'', ''b'']"
    by (auto simp: call_many_def mid_stop_env_def demo_env_def ready_proc_def)
  have disk: "disk mid_stop_env (saves demo_world) = WriteOk"
    by (simp add: mid_stop_env_def demo_env_def)
  have cls: "classify_batch mid_stop_env ready_proc [''a'', ''b''] = Inr [fox, fox]"
    by (simp add: classify_batch_def call_many_def mid_stop_env_def demo_env_def ready_proc_def)
  have start: "\<not> stop_flag ready_proc" "records ready_proc = []" "polls demo_world = 0"
    by (simp_all add: ready_proc_def demo_proc_def set_params_def init_processor_def
        demo_world_def)
  have pressed: "stop_pressed mid_stop_env n \<longleftrightarrow> n = 1" for n
    by (simp add: mid_stop_env_def)
  from checkpoint_after_batch [OF contract disk] obtain p' w' results k
    where h: "run_batch mid_stop_env [''a'', ''b''] (ready_proc, demo_world) = Inr (p', w')
      \<and> classify_batch mid_stop_env ready_proc [''a'', ''b''] = Inr results
      \<and> k \<le> length [''a'', ''b'']
      \<and> (\<forall>i < k. \<not> stop_flag ready_proc \<and> \<not> stop_pressed mid_stop_env (polls demo_world + i))
      \<and> (k < length [''a'', ''b''] \<longrightarrow> stop_flag ready_proc
             \<or> stop_pressed mid_stop_env (polls demo_world + k))
      \<and> records p' = records ready_proc
           @ map (\<lambda>(q, r). record_from_path_and_result (exif_of mid_stop_env)
                               (conf_threshold ready_proc) q r)
               (take k (zip [''a'', ''b''] results))
      \<and> processed_paths p' = processed_paths ready_proc \<union> set (take k [''a'', ''b''])
      \<and> (k < length [''a'', ''b''] \<longrightarrow> stop_flag p')
      \<and> progress_file w' = Parsed (payload_of p')
      \<and> cp_records (payload_of p') = Some (records p')
      \<and> cp_processed_paths (payload_of p') = Good (processed_paths p')"
    by (elim exE) (rule that)
  from h have run: "run_batch mid_stop_env [''a'', ''b''] (ready_proc, demo_world) = Inr (p', w')"
    by (rule conjunct1)
  from h have res: "classify_batch mid_stop_env ready_proc [''a'', ''b''] = Inr results"
    by (elim conjE)
  from h have k: "k \<le> 2" by (elim conjE) simp
  from h have before: "\<forall>i < k. \<not> stop_pressed mid_stop_env (polls demo_world + i)"
    by (elim conjE) simp
  from h have at: "k < 2 \<longrightarrow> stop_flag ready_proc
                      \<or> stop_pressed mid_stop_env (polls demo_world + k)"
    by (elim conjE) simp
  from h have recs: "records p' = records ready_proc
           @ map (\<lambda>(q, r). record_from_path_and_result (exif_of mid_stop_env)
                               (conf_threshold ready_proc) q r)
               (take k (zip [''a'', ''b''] results))"
    by (elim conjE)
  from h have cut: "k < 2 \<longrightarrow> stop_flag p'" by (elim conjE) simp
  from h have saved1: "progress_file w' = Parsed (payload_of p')" by (elim conjE)
  from h have saved2: "cp_records (payload_of p') = Some (records p')" by (elim conjE)
  note saved = saved1 saved2
  have k1: "k = 1"
  proof -
    have "\<not> 1 < k"
    proof
      assume "1 < k"
      with before have "\<not> stop_pressed mid_stop_env (polls demo_world + 1)" by blast
      with start(3) pressed show False by simp
    qed
    moreover have "k \<noteq> 0"
    proof
      assume "k = 0"
      with at start pressed show False by simp
    qed
    ultimately show ?thesis by simp
  qed
  from res cls have "results = [fox, fox]" by simp
  with recs k1 start
  have r: "records p'
           = [record_from_path_and_result (exif_of mid_stop_env) (conf_threshold ready_proc) ''a'' fox]"
    by simp
  from cut k1 have "stop_flag p'" by simp
  with run r saved show ?thesis
    by (intro exI [of _ p'] exI [of _ w']) simp
qed

section \<open>The ledger of processed paths\<close>

text \<open>
  C4. The ledger invariant \<open>ledger_ok\<close> says that the records' paths are pairwise distinct
  and are exactly the processed paths. The body of the inner loop keeps it for a path
  that is not yet processed; it gives equal cardinality and a one-to-one correspondence
  by path (each processed path is the path of exactly one record, and each record's path
  is processed); it holds of the processor that \<open>process_new\<close> returns, whatever the
  outcome and wherever Stop was pressed, when the walk lists no path twice; and it holds
  of the processor that \<open>process_resume\<close> returns when moreover the checkpoint file is
  one saved from a state that satisfies it.
\<close>

theorem ledger_invariant:
  "(ledger_ok p \<and> q \<notin> processed_paths p \<longrightarrow> ledger_ok (process_item e p q r))
   \<and> (ledger_ok p \<longrightarrow>
         card (processed_paths p) = length (records p)
         \<and> (\<forall>q \<in> processed_paths p. \<exists>!i. i < length (records p) \<and> rec_path (records p ! i) = q)
         \<and> (\<forall>i < length (records p). rec_path (records p ! i) \<in> processed_paths p))
   \<and> (process_new e p w = Inr (out, p', w')
        \<and> (\<forall>d. root_folder p = Some d \<longrightarrow> distinct (walk_paths e d))
        \<longrightarrow> ledger_ok p')
   \<and> (process_resume e p w = Inr (out, p', w')
        \<and> progress_file w = Parsed (payload_of ps) \<and> ledger_ok ps
        \<and> (\<forall>d. root_folder ps = Some d \<longrightarrow> distinct (walk_paths e d))
        \<longrightarrow> ledger_ok p')"
  using ledger_process_item [of p q e r] ledger_card [of p] ledger_unique [of p]
    ledger_index [of p] ledger_process_new [of e p w out p' w']
    ledger_process_resume [of e p w out p' w' ps]
  by blast

text \<open>The run over the example folder returns, and its ledger is consistent.\<close>

lemma demo_env_ok: "env_ok demo_env"
  by (simp add: env_ok_def demo_env_def)

lemma demo_walk_distinct: "distinct (walk_paths demo_env ''r'')"
  by code_simp

lemma demo_root: "root_folder demo_proc = Some ''r''" "batch_size demo_proc = 1"
  by (simp_all add: demo_proc_def set_params_def)

theorem ledger_invariant_witness:
  "\<exists>out p' w'. process_new demo_env demo_proc demo_world = Inr (out, p', w')
      \<and> ledger_ok p' \<and> card (processed_paths p') = length (records p')"
proof -
  from process_new_returns [OF demo_env_ok, of demo_proc demo_world] demo_root
  obtain out p' w' where run: "process_new demo_env demo_proc demo_world = Inr (out, p', w')"
    by auto
  have walk: "\<forall>d. root_folder demo_proc = Some d \<longrightarrow> distinct (walk_paths demo_env d)"
    using demo_root demo_walk_distinct by simp
  from ledger_invariant [where p = demo_proc and e = demo_env and w = demo_world
      and out = out and p' = p' and w' = w'] run walk
  have ok: "ledger_ok p'" by blast
  from ledger_invariant [where p = p'] ok
  have "card (processed_paths p') = length (records p')" by blast
  with run ok show ?thesis by blast
qed

section \<open>The stop flag across runs\<close>

lemma resume_stopped_any:
  assumes run: "process_resume e p w = Inr (out, p', w')" and flag: "stop_flag p"
  shows "stop_flag p' \<and> submitted w' = submitted w
         \<and> records p' = records (snd (load_progress p w))"
proof -
  from process_resume_cases [OF run] show ?thesis
  proof (elim disjE exE conjE)
    fix lr assume ld: "load_progress p w = (lr, p')" and "w' = w"
    with load_progress_flags(1) [OF ld] flag show ?thesis by simp
  next
    assume ld: "load_progress p w = (Loaded, p')" and "w' = w"
    with load_progress_flags(1) [OF ld] flag show ?thesis by simp
  next
    fix p0 remaining
    assume ld: "load_progress p w = (Loaded, p0)"
      and rd: "(if classifier_loaded p0 then Inr p0 else load_model e p0) = Inr p'"
      and "w' = w"
    with load_progress_flags(1) [OF ld] ready_facts(1,3) [OF rd] flag show ?thesis by simp
  next
    fix p0 p1 remaining w2
    assume ld: "load_progress p w = (Loaded, p0)"
      and rd: "(if classifier_loaded p0 then Inr p0 else load_model e p0) = Inr p1"
      and rb: "run_batches e remaining (p1, w) = Inr (p', w2)"
      and fin: "finalize_processing e p' w2 = Inr w'"
    from load_progress_flags(1) [OF ld] ready_facts(3) [OF rd] flag have f1: "stop_flag p1"
      by simp
    from rb have bs: "batch_size p1 \<noteq> 0" by (auto simp: run_batches_def split: if_splits)
    from run_batches_stopped [OF f1 bs, of e remaining w] rb
    have "records p' = records p1" "stop_flag p'" "same_files w w2" by auto
    with finalize_facts(2) [OF fin] ready_facts(1) [OF rd] ld show ?thesis
      by (simp add: same_files_def)
  qed
qed

lemma resume_stopped_finishes:
  assumes flag: "stop_flag p"
    and ld: "load_progress p w = (Loaded, p0)"
    and model: "classifier_loaded p \<or> model_loads e"
    and bs: "batch_size p0 \<noteq> 0"
    and sc: "scan_all_images e p0 = Inr remaining"
    and total: "length remaining + card (processed_paths p0) \<noteq> 0"
    and io: "excel_ok e" "disk e (saves w) = WriteOk"
  shows "\<exists>p' w'. process_resume e p w = Inr (Finished, p', w')
           \<and> stop_flag p' \<and> records p' = records p0 \<and> submitted w' = submitted w
           \<and> excel_file w' = Some (map export_row_of (records p0))
           \<and> progress_file w' = Parsed (payload_of p')"
proof -
  note lf = load_progress_flags [OF ld]
  from model lf(2) obtain p1
    where rd: "(if classifier_loaded p0 then Inr p0 else load_model e p0) = Inr p1"
    by (cases "classifier_loaded p0") (auto simp: load_model_def)
  note rf = ready_facts [OF rd]
  from rf(2,4) have "scan_all_images e p1 = scan_all_images e p0"
    by (rule scan_all_images_cong [OF _ _, of p1 p0 e, rotated]) 
  with sc have sc1: "scan_all_images e p1 = Inr remaining" by simp
  from total rf(2) have total1: "length remaining + card (processed_paths p1) \<noteq> 0" by simp
  from flag lf(1) rf(3) have f1: "stop_flag p1" by simp
  from bs rf(5) have bs1: "batch_size p1 \<noteq> 0" by simp
  from run_batches_stopped [OF f1 bs1, of e remaining w] obtain p2 w2
    where rb: "run_batches e remaining (p1, w) = Inr (p2, w2)"
      and st: "records p2 = records p1" "stop_flag p2" "same_files w w2"
    by blast
  let ?w3 = "w2\<lparr>excel_file := Some (map export_row_of (records p2))\<rparr>"
  from st(3) io(2) have "disk e (saves ?w3) = WriteOk" by (simp add: same_files_def)
  from save_progress_ok [OF this, of p2] io(1)
  have fin: "finalize_processing e p2 w2
             = Inr (?w3\<lparr>progress_file := Parsed (payload_of p2), saves := Suc (saves ?w3)\<rparr>)"
    by (simp add: finalize_processing_def)
  have "process_resume e p w
        = Inr (Finished, p2, ?w3\<lparr>progress_file := Parsed (payload_of p2), saves := Suc (saves ?w3)\<rparr>)"
    using ld rd sc1 total1 rb fin by (simp add: process_resume_def Let_def split: if_splits)
  with st rf(1) show ?thesis by (simp add: same_files_def)
qed

text \<open>
  C10. \<open>process_resume\<close> never clears the stop flag. On a processor whose flag is set,
  whatever it returns, the flag is still set, no batch has been submitted to the pipeline
  and the records are those of the loaded checkpoint. When moreover the checkpoint loads,
  the model is or can be loaded, the batch size is not zero, there is an image left or a
  path processed, and the spreadsheet and the checkpoint can be written, it returns
  \<open>Finished\<close>: finalization has exported the loaded records and saved a final checkpoint.
  \<open>reset_state\<close>, which only \<open>process_new\<close> calls, clears the flag, and a new run during
  which Stop is never pressed ends with the flag clear.
\<close>

theorem resume_keeps_stop_flag:
  "(process_resume e p w = Inr (out, p', w') \<and> stop_flag p \<longrightarrow>
      stop_flag p' \<and> submitted w' = submitted w
      \<and> records p' = records (snd (load_progress p w)))
   \<and> (stop_flag p \<and> load_progress p w = (Loaded, p0)
       \<and> (classifier_loaded p \<or> model_loads e) \<and> batch_size p0 \<noteq> 0
       \<and> scan_all_images e p0 = Inr remaining
       \<and> length remaining + card (processed_paths p0) \<noteq> 0
       \<and> excel_ok e \<and> disk e (saves w) = WriteOk \<longrightarrow>
         (\<exists>p2 w2. process_resume e p w = Inr (Finished, p2, w2)
            \<and> stop_flag p2 \<and> records p2 = records p0 \<and> submitted w2 = submitted w
            \<and> excel_file w2 = Some (map export_row_of (records p0))
            \<and> progress_file w2 = Parsed (payload_of p2)))
   \<and> \<not> stop_flag (reset_state p)
   \<and> (process_new e p w = Inr (out, p', w') \<and> (\<forall>n. \<not> stop_pressed e n)
        \<longrightarrow> \<not> stop_flag p')"
proof (intro conjI impI)
  assume "process_resume e p w = Inr (out, p', w') \<and> stop_flag p"
  then have a: "process_resume e p w = Inr (out, p', w')" "stop_flag p" by simp_all
  from resume_stopped_any [OF a]
  show "stop_flag p'" "submitted w' = submitted w"
    "records p' = records (snd (load_progress p w))" by simp_all
next
  assume h: "stop_flag p \<and> load_progress p w = (Loaded, p0)
       \<and> (classifier_loaded p \<or> model_loads e) \<and> batch_size p0 \<noteq> 0
       \<and> scan_all_images e p0 = Inr remaining
       \<and> length remaining + card (processed_paths p0) \<noteq> 0
       \<and> excel_ok e \<and> disk e (saves w) = WriteOk"
  then have h1: "stop_flag p" and h2: "load_progress p w = (Loaded, p0)"
    and h3: "classifier_loaded p \<or> model_loads e" and h4: "batch_size p0 \<noteq> 0"
    and h5: "scan_all_images e p0 = Inr remaining"
    and h6: "length remaining + card (processed_paths p0) \<noteq> 0"
    and h7: "excel_ok e" and h8: "disk e (saves w) = WriteOk"
    by blast+
  show "\<exists>p2 w2. process_resume e p w = Inr (Finished, p2, w2)
            \<and> stop_flag p2 \<and> records p2 = records p0 \<and> submitted w2 = submitted w
            \<and> excel_file w2 = Some (map export_row_of (records p0))
            \<and> progress_file w2 = Parsed (payload_of p2)"
    using h1 h2 h3 h4 h5 h6 h7 h8 by (rule resume_stopped_finishes)
next
  show "\<not> stop_flag (reset_state p)" by (simp add: reset_state_def)
next
  assume "process_new e p w = Inr (out, p', w') \<and> (\<forall>n. \<not> stop_pressed e n)"
  then show "\<not> stop_flag p'" using process_new_flag by blast
qed

text \<open>After Stop, a resume over the example folder with two images left processes
  none of them and still exports and saves.\<close>

lemma demo_scan:
  "root_folder p = Some ''r'' \<Longrightarrow> processed_paths p = {} \<Longrightarrow>
   scan_all_images demo_env p = Inr [''r/d/a.PNG'', ''r/d/e.jpeg'']"
  by (simp add: scan_all_images_def demo_env_def demo_scan_files del: scan_files.simps)

theorem resume_keeps_stop_flag_witness:
  "stop_flag (stop demo_proc)
   \<and> (\<exists>p2 w2. process_resume demo_env (stop demo_proc) saved_world = Inr (Finished, p2, w2)
         \<and> stop_flag p2 \<and> records p2 = [] \<and> submitted w2 = []
         \<and> excel_file w2 = Some [] \<and> progress_file w2 = Parsed (payload_of p2))"
proof -
  define q0 where
    "q0 = (stop demo_proc)\<lparr>root_folder := root_folder demo_proc,
             batch_size := batch_size demo_proc, conf_threshold := conf_threshold demo_proc,
             records := records demo_proc, processed_paths := processed_paths demo_proc\<rparr>"
  have flag: "stop_flag (stop demo_proc)" by (simp add: stop_def)
  have "progress_file saved_world = Parsed (payload_of demo_proc)"
    by (simp add: saved_world_def)
  then have ld: "load_progress (stop demo_proc) saved_world = (Loaded, q0)"
    unfolding q0_def by (rule load_progress_payload)
  have q: "root_folder q0 = Some ''r''" "processed_paths q0 = {}" "batch_size q0 = 1"
    "records q0 = []"
    by (simp_all add: q0_def demo_proc_def set_params_def init_processor_def)
  have sc: "scan_all_images demo_env q0 = Inr [''r/d/a.PNG'', ''r/d/e.jpeg'']"
    using q(1,2) by (rule demo_scan)
  have hyps: "stop_flag (stop demo_proc) \<and> load_progress (stop demo_proc) saved_world = (Loaded, q0)
       \<and> (classifier_loaded (stop demo_proc) \<or> model_loads demo_env) \<and> batch_size q0 \<noteq> 0
       \<and> scan_all_images demo_env q0 = Inr [''r/d/a.PNG'', ''r/d/e.jpeg'']
       \<and> length [''r/d/a.PNG'', ''r/d/e.jpeg''] + card (processed_paths q0) \<noteq> 0
       \<and> excel_ok demo_env \<and> disk demo_env (saves saved_world) = WriteOk"
    using flag ld sc q(3) by (simp add: demo_env_def)
  from resume_keeps_stop_flag [where p = "stop demo_proc" and w = saved_world and p0 = q0
      and e = demo_env and remaining = "[''r/d/a.PNG'', ''r/d/e.jpeg'']"] hyps
  obtain p2 w2 where "process_resume demo_env (stop demo_proc) saved_world = Inr (Finished, p2, w2)"
    "stop_flag p2" "records p2 = records q0" "submitted w2 = submitted saved_world"
    "excel_file w2 = Some (map export_row_of (records q0))"
    "progress_file w2 = Parsed (payload_of p2)"
    by blast
  with q(4) flag show ?thesis
    by (intro conjI exI [of _ p2] exI [of _ w2]) (simp_all add: saved_world_def demo_world_def)
qed

section \<open>Resuming after a stop\<close>

text \<open>The runs over the example folder, evaluated: uninterrupted, and stopped after the
  first of its two images.\<close>

lemmas run_defs =
  process_new_def process_resume_def load_model_def scan_all_images_def run_batches_def
  batch_loop.simps run_batch_def classify_batch_def call_many_def poll_stop_def stop_def
  process_item_def save_progress_def finalize_processing_def reset_state_def
  load_progress_def payload_of_def
  demo_env_def late_stop_env_def demo_proc_def set_params_def init_processor_def demo_world_def

lemma full_run:
  "(case process_new demo_env demo_proc demo_world of
      Inl x \<Rightarrow> False
    | Inr (out, p', w') \<Rightarrow>
        out = Finished \<and> map rec_path (records p') = [''r/d/a.PNG'', ''r/d/e.jpeg''])"
  by (simp add: run_defs demo_scan_files Let_def del: scan_files.simps)

lemma stopped_run:
  "(case process_new late_stop_env demo_proc demo_world of
      Inl x \<Rightarrow> False
    | Inr (out, p', w') \<Rightarrow>
        out = Finished \<and> map rec_path (records p') = [''r/d/a.PNG''] \<and> stop_flag p'
        \<and> progress_file w' = Parsed (payload_of p'))"
  by (simp add: run_defs demo_scan_files Let_def del: scan_files.simps)


lemma demo_scan_files_rest:
  "scan_files {''r/d/a.PNG''} ''r/d'' [''a.PNG'', ''._b.jpg'', ''c.txt'', ''e.jpeg''] = [''r/d/e.jpeg'']"
  by code_simp

text \<open>
  C3. A new run over the example folder, batch size 1, is stopped after its first image
  and saves its checkpoint with one record. Resumed on the same processor, with Stop
  never pressed again, the run ends with that one record only: the flag set by the
  earlier Stop is still set, since \<open>process_resume\<close> does not clear it, and the loop ends at
  its first poll. Resumed on a fresh processor from the same checkpoint, the run ends
  with both records, as the uninterrupted run does.
\<close>

theorem resume_after_stop_same_session:
  "(case process_new late_stop_env demo_proc demo_world of
      Inl x \<Rightarrow> False
    | Inr (out1, p1, w1) \<Rightarrow>
        out1 = Finished \<and> stop_flag p1 \<and> progress_file w1 = Parsed (payload_of p1)
        \<and> map rec_path (records p1) = [''r/d/a.PNG'']
        \<and> (case process_resume demo_env p1 w1 of
              Inl x \<Rightarrow> False
            | Inr (out2, p2, w2) \<Rightarrow>
                out2 = Finished \<and> map rec_path (records p2) = [''r/d/a.PNG''])
        \<and> (case process_resume demo_env init_processor w1 of
              Inl x \<Rightarrow> False
            | Inr (out2, p2, w2) \<Rightarrow>
                out2 = Finished
                \<and> map rec_path (records p2) = [''r/d/a.PNG'', ''r/d/e.jpeg'']))
   \<and> (case process_new demo_env demo_proc demo_world of
        Inl x \<Rightarrow> False
      | Inr (out3, p3, w3) \<Rightarrow>
          out3 = Finished \<and> map rec_path (records p3) = [''r/d/a.PNG'', ''r/d/e.jpeg''])"
  by (simp add: run_defs demo_scan_files demo_scan_files_rest Let_def del: scan_files.simps)

end
